theory Spec2Isabelle
  imports Main "HOL-Library.Word" "HOL-Library.Numeral_Type"
begin

unbundle bit_operations_syntax

section \<open>The Edwards group, seen as an abelian group\<close>

text \<open>
  The evaluator \<^verbatim>\<open>edwardsMulAbglsvPorninVartime\<close> uses the Edwards group only through
  its group operations (identity, negation, doubling, addition and subtraction of table
  entries). Field arithmetic and the coordinate systems are external to it, so a point is an
  element of an arbitrary abelian group \<open>'g\<close>; equality of points is equality "as elements of
  the Edwards group". The curve group of edwards25519 is cyclic of order \<open>8 * ell\<close>, so the
  integers modulo \<open>8 * ell\<close> (type \<open>pt\<close> below, with the basepoint a generator of the subgroup
  of order \<open>ell\<close>, for instance \<open>8\<close>) are a concrete copy of it, used for closed instances.
\<close>

definition ell :: int where
  "ell = 2 ^ 252 + 27742317777372353535851937790883648493"

type_synonym pt = "57896044618658097711785492504343953926856930875039260848015607506283634007912"

text \<open>\<open>smul k P\<close> is the scalar multiple \<open>[k]P\<close>: \<open>P\<close> added to itself \<open>k\<close> times.\<close>

definition smul_nat :: "nat \<Rightarrow> 'g::ab_group_add \<Rightarrow> 'g" where
  "smul_nat n P = (((+) P) ^^ n) 0"

definition smul :: "int \<Rightarrow> 'g::ab_group_add \<Rightarrow> 'g" where
  "smul k P = (if k < 0 then - smul_nat (nat (- k)) P else smul_nat (nat k) P)"

section \<open>The scalar ring\<close>

text \<open>
  A scalar is the integer its 32-byte little-endian encoding denotes; a canonical scalar is
  below \<open>ell\<close>. Byte buffers are lists of 8-bit words.
\<close>

type_synonym byte = "8 word"

fun le_bytes :: "nat \<Rightarrow> int \<Rightarrow> byte list" where
  "le_bytes 0 v = []"
| "le_bytes (Suc n) v = word_of_int v # le_bytes n (v div 256)"

fun le_value :: "byte list \<Rightarrow> int" where
  "le_value [] = 0"
| "le_value (b # bs) = uint b + 256 * le_value bs"

text \<open>
  Go's built-in \<^verbatim>\<open>copy(dst, src)\<close>: the first \<open>min (len dst) (len src)\<close> elements of
  \<open>dst\<close> are overwritten, the rest of \<open>dst\<close> is kept.
\<close>

definition copy_go :: "'a list \<Rightarrow> 'a list \<Rightarrow> 'a list" where
  "copy_go dst src = take (length dst) src @ drop (length src) dst"

datatype scalar_error = UnexpectedSize | NotCanonical

text \<open>Modelled from the spec: \<^verbatim>\<open>scalar.Scalar.Set\<close> (package \<^verbatim>\<open>curve/scalar\<close> is not
  among the sources), assignment of a scalar.\<close>

definition Scalar_Set :: "int \<Rightarrow> int" where
  "Scalar_Set x = x"

text \<open>Modelled from the spec: \<^verbatim>\<open>scalar.Scalar.Neg\<close> (not among the sources), negation in
  the scalar ring of integers modulo \<open>ell\<close>.\<close>

definition Scalar_Neg :: "int \<Rightarrow> int" where
  "Scalar_Neg x = (- x) mod ell"

text \<open>Modelled from the spec: \<^verbatim>\<open>scalar.Scalar.Mul\<close> (not among the sources), the reduced
  product of two scalars.\<close>

definition Scalar_Mul :: "int \<Rightarrow> int \<Rightarrow> int" where
  "Scalar_Mul x y = (x * y) mod ell"

text \<open>Modelled from the spec: \<^verbatim>\<open>scalar.Scalar.ToBytes\<close> (not among the sources),
  \<open>to_bytes(buf[32])\<close>: the 32-byte little-endian serialization into a buffer of 32 bytes;
  the serializer refuses a buffer of another size and a scalar that is not canonical.\<close>

definition ToBytes :: "int \<Rightarrow> byte list \<Rightarrow> scalar_error + byte list" where
  "ToBytes s out =
     (if length out \<noteq> 32 then Inl UnexpectedSize
      else if s < 0 \<or> ell \<le> s then Inl NotCanonical
      else Inr (le_bytes 32 s))"

text \<open>Modelled from the spec: \<^verbatim>\<open>scalar.Scalar.SetBits\<close> (not among the sources),
  \<open>set_bits(buf[32])\<close>: loads an arbitrary 256-bit little-endian integer, reducing if
  needed; a buffer that is not 32 bytes long is an error.\<close>

definition SetBits :: "byte list \<Rightarrow> scalar_error + int" where
  "SetBits inp = (if length inp \<noteq> 32 then Inl UnexpectedSize else Inr (le_value inp mod ell))"

text \<open>Modelled from the spec: the recoding of \<^verbatim>\<open>scalar.Scalar.NonAdjacentForm\<close> (not among
  the sources), \<open>non_adjacent_form(w)\<close>: signed digits, each zero or odd and of absolute value
  below \<open>2 ^ (w - 1)\<close>. The digits are those of the width-\<open>w\<close> non-adjacent form: at an odd
  remainder the digit is the signed residue modulo \<open>2 ^ w\<close>, at an even one it is zero;
  \<open>naf_from w n x\<close> are the first \<open>n\<close> digits of \<open>x\<close>.\<close>

fun naf_from :: "nat \<Rightarrow> nat \<Rightarrow> int \<Rightarrow> int list" where
  "naf_from w 0 x = []"
| "naf_from w (Suc n) x =
     (if even x then 0 # naf_from w n (x div 2)
      else let m = x mod 2 ^ w;
               d = (if m < 2 ^ (w - 1) then m else m - 2 ^ w)
           in d # naf_from w n ((x - d) div 2))"

text \<open>Modelled from the spec: \<^verbatim>\<open>scalar.Scalar.NonAdjacentForm\<close> (not among the sources):
  the array \<open>[i8; 256]\<close> of the digits of the recoding above.\<close>

definition NonAdjacentForm :: "nat \<Rightarrow> int \<Rightarrow> int list" where
  "NonAdjacentForm w s = naf_from w 256 s"

text \<open>The integer a digit array denotes: the sum of \<open>d\<^sub>i * 2 ^ i\<close>.\<close>

fun digits_value :: "int list \<Rightarrow> int" where
  "digits_value [] = 0"
| "digits_value (d # ds) = d + 2 * digits_value ds"

text \<open>The spec's contract of a digit of the width-\<open>w\<close> form: zero, or odd and of absolute value
  below \<open>2 ^ (w - 1)\<close>.\<close>

definition digit_ok :: "nat \<Rightarrow> int \<Rightarrow> bool" where
  "digit_ok w d = (d = 0 \<or> (odd d \<and> \<bar>d\<bar> < 2 ^ (w - 1)))"

section \<open>The lattice reducer\<close>

text \<open>
  \<^verbatim>\<open>lattice.FindShortVector\<close> (package \<^verbatim>\<open>internal/lattice\<close>) is not among the sources. A
  \<^verbatim>\<open>SignedInt\<close> (sign and magnitude) is an integer.
\<close>

type_synonym vec = "int \<times> int"

definition norm2 :: "vec \<Rightarrow> int" where
  "norm2 v = fst v * fst v + snd v * snd v"

definition inner :: "vec \<Rightarrow> vec \<Rightarrow> int" where
  "inner u v = fst u * fst v + snd u * snd v"

text \<open>The nearest-integer quotient \<open>a / b\<close> for positive \<open>b\<close>.\<close>

definition round_div :: "int \<Rightarrow> int \<Rightarrow> int" where
  "round_div a b = (2 * a + b) div (2 * b)"

definition sub_mul :: "vec \<Rightarrow> int \<Rightarrow> vec \<Rightarrow> vec" where
  "sub_mul u q v = (fst u - q * fst v, snd u - q * snd v)"

text \<open>Modelled from the spec: the reduction loop of \<^verbatim>\<open>lattice.FindShortVector\<close> (not among
  the sources), the two-row Gauss reduction of section 4.1: the longer row \<open>u\<close> is replaced
  by \<open>u - q * v\<close>, with \<open>q\<close> the nearest-integer quotient of the inner products
  \<open>\<langle>u, v\<rangle> / \<langle>v, v\<rangle>\<close>, until the replaced row is no shorter than the other one; the shorter
  row is returned.\<close>

function gauss :: "vec \<Rightarrow> vec \<Rightarrow> vec" where
  "gauss u v =
     (if norm2 u < norm2 v then gauss v u
      else let q = round_div (inner u v) (norm2 v);
               u' = sub_mul u q v
           in if norm2 u' < norm2 v then gauss v u' else v)"
  by pat_completeness auto

termination
proof (relation "measure (\<lambda>(u, v). nat (norm2 v))")
  show "wf (measure (\<lambda>(u, v). nat (norm2 v)))" by simp
next
  fix u v :: vec
  assume less: "norm2 u < norm2 v"
  have "0 \<le> norm2 u" by (simp add: norm2_def)
  with less have "0 < norm2 v" by linarith
  with less show "((v, u), (u, v)) \<in> measure (\<lambda>(u, v). nat (norm2 v))" by simp
next
  fix u v u' :: vec and q :: int
  assume less: "norm2 u' < norm2 v"
  have "0 \<le> norm2 u'" by (simp add: norm2_def)
  with less have "0 < norm2 v" by linarith
  with less show "((v, u'), (u, v)) \<in> measure (\<lambda>(u, v). nat (norm2 v))" by simp
qed

declare gauss.simps [simp del]

text \<open>Modelled from the spec: \<^verbatim>\<open>lattice.FindShortVector\<close> (not among the sources),
  \<open>find_short_vector(a)\<close> of section 4.1: the Gauss reduction of the basis
  \<open>{(ell, 0), (a, 1)}\<close> of the lattice \<open>{(x, y). x \<equiv> a * y (mod ell)}\<close>, returning the shorter
  row as \<open>(d\<^sub>0, d\<^sub>1)\<close>.\<close>

definition FindShortVector :: "int \<Rightarrow> int \<times> int" where
  "FindShortVector a = gauss (ell, 0) (a, 1)"

text \<open>Modelled from the spec: \<^verbatim>\<open>SignedInt.IsNegative\<close> (not among the sources),
  \<open>is_negative()\<close>.\<close>

definition IsNegative :: "int \<Rightarrow> bool" where
  "IsNegative d = (d < 0)"

text \<open>Modelled from the spec: \<^verbatim>\<open>SignedInt.Abs\<close> (not among the sources), \<open>abs()\<close>, the
  magnitude.\<close>

definition Abs :: "int \<Rightarrow> int" where
  "Abs d = \<bar>d\<bar>"

text \<open>Modelled from the spec: \<^verbatim>\<open>ToScalar\<close> of a magnitude (not among the sources),
  \<open>to_scalar()\<close>, which widens the magnitude into a reduced scalar modulo \<open>ell\<close>.\<close>

definition ToScalar :: "int \<Rightarrow> int" where
  "ToScalar m = m mod ell"

text \<open>
  Notions for the proofs about the reducer: membership of a row in the lattice of \<open>a\<close>, the
  determinant of two rows, and the bound a returned row satisfies (\<open>3 |v|\<^sup>4 \<le> 4 ell\<^sup>2\<close>).
\<close>

definition in_lattice :: "int \<Rightarrow> vec \<Rightarrow> bool" where
  "in_lattice a v = (ell dvd (fst v - a * snd v))"

definition det :: "vec \<Rightarrow> vec \<Rightarrow> int" where
  "det u v = fst u * snd v - snd u * fst v"

definition reduced_short :: "vec \<Rightarrow> bool" where
  "reduced_short v = (3 * (norm2 v * norm2 v) \<le> 4 * (ell * ell))"

section \<open>The multi-scalar evaluator\<close>

subsection \<open>Group operations and lookup tables\<close>

text \<open>
  The point types \<^verbatim>\<open>EdwardsPoint\<close>, \<^verbatim>\<open>projectivePoint\<close>, \<^verbatim>\<open>completedPoint\<close>,
  \<^verbatim>\<open>extendedPoint\<close> and the table entry types are coordinate representations of group
  elements; their methods are not among the sources. Each is modelled by the group operation
  the spec's interface (section 6) gives it.
\<close>

text \<open>Modelled from the spec: \<^verbatim>\<open>Identity\<close> of the accumulator types (not among the
  sources), \<open>identity()\<close>.\<close>

definition Identity :: "'g::ab_group_add" where
  "Identity = 0"

text \<open>Modelled from the spec: \<^verbatim>\<open>EdwardsPoint.Neg\<close> (not among the sources), \<open>neg()\<close>.\<close>

definition EdwardsPoint_Neg :: "'g::ab_group_add \<Rightarrow> 'g" where
  "EdwardsPoint_Neg P = - P"

text \<open>Modelled from the spec: \<^verbatim>\<open>EdwardsPoint.Set\<close> (not among the sources), assignment
  of a point.\<close>

definition EdwardsPoint_Set :: "'g::ab_group_add \<Rightarrow> 'g" where
  "EdwardsPoint_Set P = P"

text \<open>Modelled from the spec: \<^verbatim>\<open>completedPoint.Double\<close> and \<^verbatim>\<open>extendedPoint.Double\<close>
  (not among the sources), \<open>double()\<close>.\<close>

definition Double :: "'g::ab_group_add \<Rightarrow> 'g" where
  "Double P = P + P"

text \<open>Modelled from the spec: \<^verbatim>\<open>completedPoint.AddCompletedProjectiveNiels\<close> (not among
  the sources), addition of a cached table entry to the accumulator.\<close>

definition AddCompletedProjectiveNiels :: "'g::ab_group_add \<Rightarrow> 'g \<Rightarrow> 'g" where
  "AddCompletedProjectiveNiels t p = t + p"

text \<open>Modelled from the spec: \<^verbatim>\<open>completedPoint.SubCompletedProjectiveNiels\<close> (not among
  the sources), subtraction of a cached table entry from the accumulator.\<close>

definition SubCompletedProjectiveNiels :: "'g::ab_group_add \<Rightarrow> 'g \<Rightarrow> 'g" where
  "SubCompletedProjectiveNiels t p = t - p"

text \<open>Modelled from the spec: \<^verbatim>\<open>completedPoint.AddCompletedAffineNiels\<close> (not among the
  sources), addition of an affine table entry to the accumulator.\<close>

definition AddCompletedAffineNiels :: "'g::ab_group_add \<Rightarrow> 'g \<Rightarrow> 'g" where
  "AddCompletedAffineNiels t p = t + p"

text \<open>Modelled from the spec: \<^verbatim>\<open>completedPoint.SubCompletedAffineNiels\<close> (not among the
  sources), subtraction of an affine table entry from the accumulator.\<close>

definition SubCompletedAffineNiels :: "'g::ab_group_add \<Rightarrow> 'g \<Rightarrow> 'g" where
  "SubCompletedAffineNiels t p = t - p"

text \<open>Modelled from the spec: \<^verbatim>\<open>projectivePoint.SetCompleted\<close> (not among the sources),
  the conversion of the completed form back to the projective accumulator.\<close>

definition SetCompleted :: "'g::ab_group_add \<Rightarrow> 'g" where
  "SetCompleted t = t"

text \<open>Modelled from the spec: \<^verbatim>\<open>EdwardsPoint.setProjective\<close> (not among the sources), the
  conversion from the accumulator to the external point type.\<close>

definition setProjective :: "'g::ab_group_add \<Rightarrow> 'g" where
  "setProjective r = r"

text \<open>Modelled from the spec: \<^verbatim>\<open>extendedPoint.AddExtendedCached\<close> (not among the sources),
  addition of a cached table entry in the extended model.\<close>

definition AddExtendedCached :: "'g::ab_group_add \<Rightarrow> 'g \<Rightarrow> 'g" where
  "AddExtendedCached q p = q + p"

text \<open>Modelled from the spec: \<^verbatim>\<open>extendedPoint.SubExtendedCached\<close> (not among the sources),
  subtraction of a cached table entry in the extended model.\<close>

definition SubExtendedCached :: "'g::ab_group_add \<Rightarrow> 'g \<Rightarrow> 'g" where
  "SubExtendedCached q p = q - p"

text \<open>Modelled from the spec: \<^verbatim>\<open>EdwardsPoint.setExtended\<close> (not among the sources), the
  conversion from the extended accumulator to the external point type.\<close>

definition setExtended :: "'g::ab_group_add \<Rightarrow> 'g" where
  "setExtended q = q"

text \<open>
  A lookup table of a variable point: one doubling gives \<open>2P\<close>, then each entry is the
  previous one plus \<open>2P\<close>.
\<close>

fun table_from :: "nat \<Rightarrow> 'g::ab_group_add \<Rightarrow> 'g \<Rightarrow> 'g list" where
  "table_from 0 A2 cur = []"
| "table_from (Suc n) A2 cur = cur # table_from n A2 (A2 + cur)"

text \<open>Modelled from the spec: \<^verbatim>\<open>newProjectiveNielsPointNafLookupTable\<close> (not among the
  sources), the table of section 3: 8 entries, entry \<open>k\<close> (from 0) holding \<open>(2k + 1) P\<close>, built
  with one doubling and seven additions.\<close>

definition newProjectiveNielsPointNafLookupTable :: "'g::ab_group_add \<Rightarrow> 'g list" where
  "newProjectiveNielsPointNafLookupTable P = table_from 8 (Double P) P"

text \<open>Modelled from the spec: \<^verbatim>\<open>newCachedPointNafLookupTable\<close> (not among the sources),
  the same table with entries in cached form.\<close>

definition newCachedPointNafLookupTable :: "'g::ab_group_add \<Rightarrow> 'g list" where
  "newCachedPointNafLookupTable P = table_from 8 (Double P) P"

text \<open>The first \<open>n\<close> odd multiples \<open>P, 3P, 5P, \<dots>\<close> of a point.\<close>

definition odd_multiples :: "nat \<Rightarrow> 'g::ab_group_add \<Rightarrow> 'g list" where
  "odd_multiples n P = map (\<lambda>k. smul (2 * int k + 1) P) [0..<n]"

text \<open>Modelled from the spec: \<^verbatim>\<open>constAFFINE_ODD_MULTIPLES_OF_BASEPOINT\<close> (not among the
  sources), the static table of the 64 odd multiples of the basepoint \<open>B\<close>.\<close>

definition constAFFINE_ODD_MULTIPLES_OF_BASEPOINT :: "'g::ab_group_add \<Rightarrow> 'g list" where
  "constAFFINE_ODD_MULTIPLES_OF_BASEPOINT B = odd_multiples 64 B"

text \<open>Modelled from the spec: \<^verbatim>\<open>constAFFINE_ODD_MULTIPLES_OF_B_SHL_128\<close> (not among the
  sources), the static table of the 64 odd multiples of \<open>[2 ^ 128]B\<close>.\<close>

definition constAFFINE_ODD_MULTIPLES_OF_B_SHL_128 :: "'g::ab_group_add \<Rightarrow> 'g list" where
  "constAFFINE_ODD_MULTIPLES_OF_B_SHL_128 B = odd_multiples 64 (smul (2 ^ 128) B)"

text \<open>Modelled from the spec: \<^verbatim>\<open>constVECTOR_ODD_MULTIPLES_OF_BASEPOINT\<close> (not among the
  sources), the static table of the 64 odd multiples of \<open>B\<close>, in cached form.\<close>

definition constVECTOR_ODD_MULTIPLES_OF_BASEPOINT :: "'g::ab_group_add \<Rightarrow> 'g list" where
  "constVECTOR_ODD_MULTIPLES_OF_BASEPOINT B = odd_multiples 64 B"

text \<open>Modelled from the spec: \<^verbatim>\<open>constVECTOR_ODD_MULTIPLES_OF_B_SHL_128\<close> (not among the
  sources), the static table of the 64 odd multiples of \<open>[2 ^ 128]B\<close>, in cached form.\<close>

definition constVECTOR_ODD_MULTIPLES_OF_B_SHL_128 :: "'g::ab_group_add \<Rightarrow> 'g list" where
  "constVECTOR_ODD_MULTIPLES_OF_B_SHL_128 B = odd_multiples 64 (smul (2 ^ 128) B)"

datatype panic = SerializeDb | UnpackE0 | UnpackE1 | IndexOutOfRange

text \<open>The conversion \<^verbatim>\<open>uint8(d)\<close> of an \<^verbatim>\<open>int8\<close> digit.\<close>

definition uint8 :: "int \<Rightarrow> nat" where
  "uint8 d = nat (d mod 256)"

text \<open>Modelled from the spec: \<^verbatim>\<open>Lookup\<close> of the lookup tables (not among the sources):
  the odd digit \<open>x\<close> selects entry \<open>x div 2\<close>, which holds \<open>[x]P\<close>; an index outside the table
  is Go's run-time panic.\<close>

definition Lookup :: "'g list \<Rightarrow> nat \<Rightarrow> panic + 'g" where
  "Lookup tbl x = (if x div 2 < length tbl then Inr (tbl ! (x div 2)) else Inl IndexOutOfRange)"

subsection \<open>The evaluation loop\<close>

text \<open>The four digit arrays and the four tables the loop reads.\<close>

record 'g straus =
  d_0_naf :: "int list"
  e_0_naf :: "int list"
  e_1_naf :: "int list"
  d_1_naf :: "int list"
  tableA :: "'g list"
  tableB :: "'g list"
  tableB_SHL_128 :: "'g list"
  tableNegC :: "'g list"

text \<open>Sequencing of steps that may panic: the first panic ends the evaluation.\<close>

definition then_do :: "panic + 'a \<Rightarrow> ('a \<Rightarrow> panic + 'b) \<Rightarrow> panic + 'b" where
  "then_do m f = (case m of Inl e \<Rightarrow> Inl e | Inr x \<Rightarrow> f x)"

text \<open>
  One of the four \<^verbatim>\<open>if d > 0 { add } else if d < 0 { sub }\<close> blocks of the loop body, for
  the digit \<open>d\<close> and its table.
\<close>

definition naf_term ::
  "('g \<Rightarrow> 'g \<Rightarrow> 'g) \<Rightarrow> ('g \<Rightarrow> 'g \<Rightarrow> 'g) \<Rightarrow> 'g list \<Rightarrow> int \<Rightarrow> 'g \<Rightarrow> panic + 'g" where
  "naf_term add sub tbl d t =
     (if d > 0 then (case Lookup tbl (uint8 d) of Inl e \<Rightarrow> Inl e | Inr p \<Rightarrow> Inr (add t p))
      else if d < 0 then (case Lookup tbl (uint8 (- d)) of Inl e \<Rightarrow> Inl e | Inr p \<Rightarrow> Inr (sub t p))
      else Inr t)"

text \<open>The loop body of the generic realization, lines 138 to 164, at index \<open>i\<close>.\<close>

definition generic_body :: "'g::ab_group_add straus \<Rightarrow> nat \<Rightarrow> 'g \<Rightarrow> panic + 'g" where
  "generic_body c i r =
     then_do (Inr (Double r)) (\<lambda>t.
     then_do (naf_term AddCompletedProjectiveNiels SubCompletedProjectiveNiels (tableA c) (d_0_naf c ! i) t) (\<lambda>t.
     then_do (naf_term AddCompletedAffineNiels SubCompletedAffineNiels (tableB c) (e_0_naf c ! i) t) (\<lambda>t.
     then_do (naf_term AddCompletedAffineNiels SubCompletedAffineNiels (tableB_SHL_128 c) (e_1_naf c ! i) t) (\<lambda>t.
     then_do (naf_term AddCompletedProjectiveNiels SubCompletedProjectiveNiels (tableNegC c) (d_1_naf c ! i) t) (\<lambda>t.
     Inr (SetCompleted t))))))"

text \<open>The loop \<^verbatim>\<open>for { body; if i == 0 { break }; i-- }\<close>.\<close>

fun generic_loop :: "'g::ab_group_add straus \<Rightarrow> nat \<Rightarrow> 'g \<Rightarrow> panic + 'g" where
  "generic_loop c i r =
     (case generic_body c i r of
        Inl e \<Rightarrow> Inl e
      | Inr r' \<Rightarrow> if i = 0 then Inr r' else generic_loop c (i - 1) r')"

declare generic_loop.simps [simp del]

text \<open>The loop body of the vectorized realization, lines 265 to 289.\<close>

definition vector_body :: "'g::ab_group_add straus \<Rightarrow> nat \<Rightarrow> 'g \<Rightarrow> panic + 'g" where
  "vector_body c i q =
     then_do (Inr (Double q)) (\<lambda>q.
     then_do (naf_term AddExtendedCached SubExtendedCached (tableA c) (d_0_naf c ! i) q) (\<lambda>q.
     then_do (naf_term AddExtendedCached SubExtendedCached (tableB c) (e_0_naf c ! i) q) (\<lambda>q.
     then_do (naf_term AddExtendedCached SubExtendedCached (tableB_SHL_128 c) (e_1_naf c ! i) q) (\<lambda>q.
     naf_term AddExtendedCached SubExtendedCached (tableNegC c) (d_1_naf c ! i) q))))"

fun vector_loop :: "'g::ab_group_add straus \<Rightarrow> nat \<Rightarrow> 'g \<Rightarrow> panic + 'g" where
  "vector_loop c i q =
     (case vector_body c i q of
        Inl e \<Rightarrow> Inl e
      | Inr q' \<Rightarrow> if i = 0 then Inr q' else vector_loop c (i - 1) q')"

declare vector_loop.simps [simp del]

text \<open>
  The starting index, lines 119 to 126: \<^verbatim>\<open>for j := 255; j >= 0; j-- { i = j; if
  nonzero at i { break } }\<close>. \<open>find_start \<dots> j\<close> is the value of \<open>i\<close> after the scan from \<open>j\<close>
  down.
\<close>

definition nonzero_at :: "int list \<Rightarrow> int list \<Rightarrow> int list \<Rightarrow> int list \<Rightarrow> nat \<Rightarrow> bool" where
  "nonzero_at n0 n1 n2 n3 i = (n0 ! i \<noteq> 0 \<or> n1 ! i \<noteq> 0 \<or> n2 ! i \<noteq> 0 \<or> n3 ! i \<noteq> 0)"

fun find_start :: "int list \<Rightarrow> int list \<Rightarrow> int list \<Rightarrow> int list \<Rightarrow> nat \<Rightarrow> nat" where
  "find_start n0 n1 n2 n3 0 = 0"
| "find_start n0 n1 n2 n3 (Suc j) =
     (if nonzero_at n0 n1 n2 n3 (Suc j) then Suc j else find_start n0 n1 n2 n3 j)"

text \<open>The scan, the loop from the identity and the final conversion, for given digit
  arrays and tables.\<close>

definition run_generic :: "'g::ab_group_add straus \<Rightarrow> panic + 'g" where
  "run_generic c =
     (let i = find_start (d_0_naf c) (e_0_naf c) (e_1_naf c) (d_1_naf c) 255
      in then_do (generic_loop c i Identity) (\<lambda>r. Inr (setProjective r)))"

text \<open>The same for the vectorized realization, lines 247 to 297.\<close>

definition run_vector :: "'g::ab_group_add straus \<Rightarrow> panic + 'g" where
  "run_vector c =
     (let i = find_start (d_0_naf c) (e_0_naf c) (e_1_naf c) (d_1_naf c) 255
      in then_do (vector_loop c i Identity) (\<lambda>q. Inr (setExtended q)))"

subsection \<open>The two realizations and the dispatcher\<close>

text \<open>
  Lines 96 to 107: the serialization of \<open>db\<close> and the two halves loaded from the 32-byte
  buffer \<open>eBuf\<close>, whose upper 16 bytes stay zero.
\<close>

definition split_db :: "int \<Rightarrow> panic + (int \<times> int)" where
  "split_db db =
     (let dbBuf0 = replicate 32 (0::byte); eBuf0 = replicate 32 (0::byte) in
      case ToBytes db dbBuf0 of
        Inl err \<Rightarrow> Inl SerializeDb
      | Inr dbBuf \<Rightarrow>
          (let eBuf1 = copy_go (take 16 eBuf0) (take 16 dbBuf) @ drop 16 eBuf0 in
           case SetBits eBuf1 of
             Inl err \<Rightarrow> Inl UnpackE0
           | Inr e_0 \<Rightarrow>
               (let eBuf2 = copy_go (take 16 eBuf1) (drop 16 dbBuf) @ drop 16 eBuf1 in
                case SetBits eBuf2 of
                  Inl err \<Rightarrow> Inl UnpackE1
                | Inr e_1 \<Rightarrow> Inr (e_0, e_1))))"

text \<open>Lines 114 to 172 of the generic realization: the four digit arrays, the tables, the
  scan and the loop.\<close>

definition straus_generic ::
  "'g::ab_group_add \<Rightarrow> 'g \<Rightarrow> 'g \<Rightarrow> int \<Rightarrow> int \<Rightarrow> int \<Rightarrow> int \<Rightarrow> panic + 'g" where
  "straus_generic B p_A negC d_0 e_0 e_1 d_1 =
     run_generic (straus.make
       (NonAdjacentForm 5 d_0) (NonAdjacentForm 8 e_0)
       (NonAdjacentForm 8 e_1) (NonAdjacentForm 5 d_1)
       (newProjectiveNielsPointNafLookupTable p_A)
       (constAFFINE_ODD_MULTIPLES_OF_BASEPOINT B)
       (constAFFINE_ODD_MULTIPLES_OF_B_SHL_128 B)
       (newProjectiveNielsPointNafLookupTable negC))"

text \<open>Lines 242 to 297 of the vectorized realization.\<close>

definition straus_vector ::
  "'g::ab_group_add \<Rightarrow> 'g \<Rightarrow> 'g \<Rightarrow> int \<Rightarrow> int \<Rightarrow> int \<Rightarrow> int \<Rightarrow> panic + 'g" where
  "straus_vector B p_A negC d_0 e_0 e_1 d_1 =
     run_vector (straus.make
       (NonAdjacentForm 5 d_0) (NonAdjacentForm 8 e_0)
       (NonAdjacentForm 8 e_1) (NonAdjacentForm 5 d_1)
       (newCachedPointNafLookupTable p_A)
       (constVECTOR_ODD_MULTIPLES_OF_BASEPOINT B)
       (constVECTOR_ODD_MULTIPLES_OF_B_SHL_128 B)
       (newCachedPointNafLookupTable negC))"

text \<open>
  \<^verbatim>\<open>edwardsMulAbglsvPorninVartimeGeneric(out, a, A, b, C)\<close>. The basepoint \<open>B\<close> of the static
  tables is a parameter; the result is the point written to \<open>out\<close>, or the panic.
\<close>

definition edwardsMulAbglsvPorninVartimeGeneric ::
  "'g::ab_group_add \<Rightarrow> int \<Rightarrow> 'g \<Rightarrow> int \<Rightarrow> 'g \<Rightarrow> panic + 'g" where
  "edwardsMulAbglsvPorninVartimeGeneric B a A b C =
     (case FindShortVector a of (d0, d1) \<Rightarrow>
        (let p_A = (if IsNegative d0 then EdwardsPoint_Neg A else EdwardsPoint_Set A);
             s_b = (if IsNegative d1 then Scalar_Neg b else Scalar_Set b);
             negC = (if IsNegative d1 then EdwardsPoint_Set C else EdwardsPoint_Neg C);
             d_0 = ToScalar (Abs d0);
             d_1 = ToScalar (Abs d1);
             db = Scalar_Mul s_b d_1
         in then_do (split_db db) (\<lambda>(e_0, e_1). straus_generic B p_A negC d_0 e_0 e_1 d_1)))"

text \<open>\<^verbatim>\<open>edwardsMulAbglsvPorninVartimeVector(out, a, A, b, C)\<close>.\<close>

definition edwardsMulAbglsvPorninVartimeVector ::
  "'g::ab_group_add \<Rightarrow> int \<Rightarrow> 'g \<Rightarrow> int \<Rightarrow> 'g \<Rightarrow> panic + 'g" where
  "edwardsMulAbglsvPorninVartimeVector B a A b C =
     (case FindShortVector a of (d0, d1) \<Rightarrow>
        (let p_A = (if IsNegative d0 then EdwardsPoint_Neg A else EdwardsPoint_Set A);
             s_b = (if IsNegative d1 then Scalar_Neg b else Scalar_Set b);
             negC = (if IsNegative d1 then EdwardsPoint_Set C else EdwardsPoint_Neg C);
             d_0 = ToScalar (Abs d0);
             d_1 = ToScalar (Abs d1);
             db = Scalar_Mul s_b d_1
         in then_do (split_db db) (\<lambda>(e_0, e_1). straus_vector B p_A negC d_0 e_0 e_1 d_1)))"

text \<open>The dispatcher; \<^verbatim>\<open>supportsVectorizedEdwards\<close> is a constant of the build.\<close>

definition edwardsMulAbglsvPorninVartime ::
  "bool \<Rightarrow> 'g::ab_group_add \<Rightarrow> int \<Rightarrow> 'g \<Rightarrow> int \<Rightarrow> 'g \<Rightarrow> panic + 'g" where
  "edwardsMulAbglsvPorninVartime supportsVectorizedEdwards B a A b C =
     (case supportsVectorizedEdwards of
        True \<Rightarrow> edwardsMulAbglsvPorninVartimeVector B a A b C
      | False \<Rightarrow> edwardsMulAbglsvPorninVartimeGeneric B a A b C)"

subsection \<open>Notions for the proofs about the loop\<close>

text \<open>A table of \<open>n\<close> entries whose entry \<open>k\<close> is \<open>[2k + 1]P\<close>.\<close>

definition is_odd_table :: "nat \<Rightarrow> 'g::ab_group_add list \<Rightarrow> 'g \<Rightarrow> bool" where
  "is_odd_table n tbl P = (length tbl = n \<and> (\<forall>k<n. tbl ! k = smul (2 * int k + 1) P))"

text \<open>The linear combination of the four bases of the loop.\<close>

definition lin :: "'g::ab_group_add \<Rightarrow> 'g \<Rightarrow> 'g \<Rightarrow> 'g \<Rightarrow> int \<Rightarrow> int \<Rightarrow> int \<Rightarrow> int \<Rightarrow> 'g" where
  "lin P0 P1 P2 P3 k0 k1 k2 k3 = smul k0 P0 + smul k1 P1 + smul k2 P2 + smul k3 P3"

text \<open>What the loop needs of its digit arrays and tables: tables of odd multiples of four
  points, arrays of 256 digits, each digit within the contract of its width.\<close>

definition ctx_ok :: "'g::ab_group_add straus \<Rightarrow> 'g \<Rightarrow> 'g \<Rightarrow> 'g \<Rightarrow> 'g \<Rightarrow> bool" where
  "ctx_ok c P0 P1 P2 P3 =
     (is_odd_table 8 (tableA c) P0 \<and> is_odd_table 64 (tableB c) P1 \<and>
      is_odd_table 64 (tableB_SHL_128 c) P2 \<and> is_odd_table 8 (tableNegC c) P3 \<and>
      length (d_0_naf c) = 256 \<and> length (e_0_naf c) = 256 \<and>
      length (e_1_naf c) = 256 \<and> length (d_1_naf c) = 256 \<and>
      (\<forall>d \<in> set (d_0_naf c). digit_ok 5 d) \<and> (\<forall>d \<in> set (e_0_naf c). digit_ok 8 d) \<and>
      (\<forall>d \<in> set (e_1_naf c). digit_ok 8 d) \<and> (\<forall>d \<in> set (d_1_naf c). digit_ok 5 d))"

text \<open>The integer denoted by the digits at the indices \<open>0, \<dots>, i\<close>.\<close>

definition upto_value :: "int list \<Rightarrow> nat \<Rightarrow> int" where
  "upto_value ds i = digits_value (take (Suc i) ds)"

section \<open>X25519\<close>

text \<open>
  File \<^verbatim>\<open>primitives/x25519/x25519.go\<close>. A panic is a value of \<open>x25519_panic\<close>; an error
  returned by \<^verbatim>\<open>X25519\<close> is a value of \<open>x25519_error\<close>, and \<open>None\<close> is Go's \<^verbatim>\<open>nil\<close>.
\<close>

datatype x25519_panic =
  DeserializeScalar | DeserializePoint | BasepointModified | BasepointIndex | ClampIndex

datatype x25519_error = BadScalarLength nat | BadPointLength nat | LowOrderPoint

text \<open>
  A byte slice: the address of its first element and its elements. An array
  \<^verbatim>\<open>*[32]byte\<close> is a pointer into a store of arrays.
\<close>

record slice =
  base :: nat
  elems :: "byte list"

type_synonym arrays = "nat \<Rightarrow> byte list"

text \<open>The array \<^verbatim>\<open>basePoint\<close>, which the package variable \<^verbatim>\<open>Basepoint\<close> is a slice of
  after \<^verbatim>\<open>init\<close>.\<close>

definition basePoint :: "byte list" where
  "basePoint = 9 # replicate 31 0"

text \<open>\<^verbatim>\<open>clampScalar\<close>; an index beyond the slice is Go's run-time panic.\<close>

definition clampScalar :: "byte list \<Rightarrow> x25519_panic + byte list" where
  "clampScalar s =
     (if length s < 32 then Inl ClampIndex
      else let s = s[0 := s ! 0 AND 248];
               s = s[31 := s ! 31 AND 127];
               s = s[31 := s ! 31 OR 64]
           in Inr s)"

text \<open>\<^verbatim>\<open>subtle.ConstantTimeCompare\<close> of the Go standard library: 1 for slices of equal
  length and equal contents, 0 otherwise.\<close>

definition ConstantTimeCompare :: "byte list \<Rightarrow> byte list \<Rightarrow> nat" where
  "ConstantTimeCompare x y = (if length x \<noteq> length y then 0 else if x = y then 1 else 0)"

text \<open>Modelled from the spec: \<^verbatim>\<open>curve.MontgomeryPoint.SetBytes\<close> (package \<^verbatim>\<open>curve\<close> is not
  among the sources; the spec leaves the Montgomery form external). A Montgomery point is
  its 32-byte encoding; only the length check of the deserialization is modelled.\<close>

definition MontgomeryPoint_SetBytes :: "byte list \<Rightarrow> scalar_error + byte list" where
  "MontgomeryPoint_SetBytes inp = (if length inp \<noteq> 32 then Inl UnexpectedSize else Inr inp)"

text \<open>
  The scalar multiplications \<^verbatim>\<open>montP.Mul(&montP, &s)\<close> and
  \<^verbatim>\<open>montP.SetEdwards(edP.MulBasepoint(curve.ED25519_BASEPOINT_TABLE, &s))\<close> are external;
  they are the parameters \<open>montMul\<close> and \<open>baseMul\<close>, arbitrary functions to the encoding of
  the resulting Montgomery point.
\<close>

text \<open>
  The body of \<^verbatim>\<open>ScalarMult(dst, in, base)\<close> on the contents of the three arrays: the new
  contents of \<open>*dst\<close>. Both inputs are read before \<open>dst\<close> is written.
\<close>

definition ScalarMult_bytes ::
  "(byte list \<Rightarrow> int \<Rightarrow> byte list) \<Rightarrow> byte list \<Rightarrow> byte list \<Rightarrow> byte list
     \<Rightarrow> x25519_panic + byte list" where
  "ScalarMult_bytes montMul dst inp bs =
     (let ec = copy_go (replicate 32 0) inp in
      case clampScalar ec of
        Inl p \<Rightarrow> Inl p
      | Inr ec \<Rightarrow>
          (case SetBits ec of
             Inl err \<Rightarrow> Inl DeserializeScalar
           | Inr s \<Rightarrow>
               (case MontgomeryPoint_SetBytes bs of
                  Inl err \<Rightarrow> Inl DeserializePoint
                | Inr montP \<Rightarrow> Inr (copy_go dst (montMul montP s)))))"

text \<open>\<^verbatim>\<open>ScalarMult(dst, in, base *[32]byte)\<close> on a store of arrays.\<close>

definition ScalarMult ::
  "(byte list \<Rightarrow> int \<Rightarrow> byte list) \<Rightarrow> arrays \<Rightarrow> nat \<Rightarrow> nat \<Rightarrow> nat \<Rightarrow> x25519_panic + arrays" where
  "ScalarMult montMul st dst inp bs =
     (case ScalarMult_bytes montMul (st dst) (st inp) (st bs) of
        Inl p \<Rightarrow> Inl p
      | Inr d \<Rightarrow> Inr (st(dst := d)))"

text \<open>The body of \<^verbatim>\<open>ScalarBaseMult(dst, in)\<close> on the contents of the two arrays.\<close>

definition ScalarBaseMult_bytes ::
  "(int \<Rightarrow> byte list) \<Rightarrow> byte list \<Rightarrow> byte list \<Rightarrow> x25519_panic + byte list" where
  "ScalarBaseMult_bytes baseMul dst inp =
     (let ec = copy_go (replicate 32 0) inp in
      case clampScalar ec of
        Inl p \<Rightarrow> Inl p
      | Inr ec \<Rightarrow>
          (case SetBits ec of
             Inl err \<Rightarrow> Inl DeserializeScalar
           | Inr s \<Rightarrow> Inr (copy_go dst (baseMul s))))"

text \<open>\<^verbatim>\<open>ScalarBaseMult(dst, in *[32]byte)\<close> on a store of arrays.\<close>

definition ScalarBaseMult ::
  "(int \<Rightarrow> byte list) \<Rightarrow> arrays \<Rightarrow> nat \<Rightarrow> nat \<Rightarrow> x25519_panic + arrays" where
  "ScalarBaseMult baseMul st dst inp =
     (case ScalarBaseMult_bytes baseMul (st dst) (st inp) of
        Inl p \<Rightarrow> Inl p
      | Inr d \<Rightarrow> Inr (st(dst := d)))"

text \<open>\<^verbatim>\<open>checkBasepoint\<close>, on the current value \<open>Bp\<close> of the package variable
  \<^verbatim>\<open>Basepoint\<close>.\<close>

definition checkBasepoint :: "slice \<Rightarrow> x25519_panic + unit" where
  "checkBasepoint Bp =
     (if ConstantTimeCompare (elems Bp) (9 # replicate 31 0) \<noteq> 1
      then Inl BasepointModified else Inr ())"

text \<open>
  \<^verbatim>\<open>x25519(dst, scalar, point)\<close>. Its arrays \<open>dst\<close>, \<open>in\<close> and \<open>base\<close> are the arrays 0, 1
  and 2 of a store of its own; the result is the pair of the returned slice and error.
  The expression \<^verbatim>\<open>&Basepoint[0]\<close> panics on an empty \<^verbatim>\<open>Basepoint\<close>.
\<close>

definition x25519 ::
  "(byte list \<Rightarrow> int \<Rightarrow> byte list) \<Rightarrow> (int \<Rightarrow> byte list) \<Rightarrow> slice \<Rightarrow> byte list \<Rightarrow> slice \<Rightarrow> slice
     \<Rightarrow> x25519_panic + (byte list option \<times> x25519_error option)" where
  "x25519 montMul baseMul Bp dst scalar point =
     (let st = (\<lambda>p. [])(0 := dst, 1 := replicate 32 0) in
      if length (elems scalar) \<noteq> 32
        then Inr (None, Some (BadScalarLength (length (elems scalar))))
      else if length (elems point) \<noteq> 32
        then Inr (None, Some (BadPointLength (length (elems point))))
      else
        (let st = st(1 := copy_go (st 1) (elems scalar)) in
         if elems Bp = [] then Inl BasepointIndex
         else if base point = base Bp then
           (case checkBasepoint Bp of
              Inl p \<Rightarrow> Inl p
            | Inr u \<Rightarrow>
                (case ScalarBaseMult baseMul st 0 1 of
                   Inl p \<Rightarrow> Inl p
                 | Inr st \<Rightarrow> Inr (Some (st 0), None)))
         else
           (let st = st(2 := replicate 32 0); zero = replicate 32 0;
                st = st(2 := copy_go (st 2) (elems point)) in
            case ScalarMult montMul st 0 1 2 of
              Inl p \<Rightarrow> Inl p
            | Inr st \<Rightarrow>
                if ConstantTimeCompare (st 0) zero = 1 then Inr (None, Some LowOrderPoint)
                else Inr (Some (st 0), None))))"

text \<open>\<^verbatim>\<open>X25519(scalar, point)\<close>: \<open>dst\<close> is a fresh zero array.\<close>

definition X25519 ::
  "(byte list \<Rightarrow> int \<Rightarrow> byte list) \<Rightarrow> (int \<Rightarrow> byte list) \<Rightarrow> slice \<Rightarrow> slice \<Rightarrow> slice
     \<Rightarrow> x25519_panic + (byte list option \<times> x25519_error option)" where
  "X25519 montMul baseMul Bp scalar point =
     x25519 montMul baseMul Bp (replicate 32 0) scalar point"


section \<open>Properties of the model\<close>

subsection \<open>Scalar multiples\<close>

lemma smul_nat_0 [simp]: "smul_nat 0 P = 0"
  by (simp add: smul_nat_def)

lemma smul_nat_Suc [simp]: "smul_nat (Suc n) P = P + smul_nat n P"
  by (simp add: smul_nat_def)

lemma smul_0 [simp]: "smul 0 P = 0"
  by (simp add: smul_def)

lemma smul_succ: "smul (k + 1) P = smul k P + P"
proof (cases "k < 0")
  case False
  then have "nat (k + 1) = Suc (nat k)" by simp
  with False show ?thesis by (simp add: smul_def)
next
  case True
  then have "nat (- k) = Suc (nat (- (k + 1)))" by simp
  with True show ?thesis by (cases "k + 1 < 0") (simp_all add: smul_def)
qed

lemma smul_pred: "smul (k - 1) P = smul k P - P"
  using smul_succ [of "k - 1" P] by simp

lemma smul_add: "smul (a + b) P = smul a P + smul b P"
proof (induction a rule: int_induct [where k = 0])
  case base
  show ?case by simp
next
  case (step1 i)
  have "smul (i + 1 + b) P = smul ((i + b) + 1) P" by (simp add: algebra_simps)
  also have "\<dots> = smul (i + b) P + P" by (rule smul_succ)
  also have "\<dots> = smul (i + 1) P + smul b P"
    unfolding step1 smul_succ by (simp add: algebra_simps)
  finally show ?case .
next
  case (step2 i)
  have "smul (i - 1 + b) P = smul ((i + b) - 1) P" by (simp add: algebra_simps)
  also have "\<dots> = smul (i + b) P - P" by (rule smul_pred)
  also have "\<dots> = smul (i - 1) P + smul b P"
    unfolding step2 smul_pred by (simp add: algebra_simps)
  finally show ?case .
qed

lemma smul_zero_right [simp]: "smul k (0::'g::ab_group_add) = 0"
  by (induction k rule: int_induct [where k = 0]) (simp_all add: smul_succ smul_pred)

lemma smul_minus: "smul (- a) P = - smul a P"
  using smul_add [of a "- a" P] by (simp add: eq_neg_iff_add_eq_0 add.commute)

lemma smul_diff: "smul (a - b) P = smul a P - smul b P"
  using smul_add [of a "- b" P] by (simp add: smul_minus)

lemma smul_add_right: "smul k (P + Q) = smul k P + smul k Q"
  by (induction k rule: int_induct [where k = 0])
     (simp_all add: smul_succ smul_pred algebra_simps)

lemma smul_neg_right: "smul k (- P) = - smul k P"
  using smul_add_right [of k P "- P"] by (simp add: eq_neg_iff_add_eq_0 add.commute)

lemma smul_diff_right: "smul k (P - Q) = smul k P - smul k Q"
  using smul_add_right [of k P "- Q"] by (simp add: smul_neg_right)

lemma smul_1 [simp]: "smul 1 P = P"
  using smul_succ [of 0 P] by simp

lemma smul_mult: "smul (a * b) P = smul a (smul b P)"
  by (induction a rule: int_induct [where k = 0])
     (simp_all add: smul_succ smul_pred algebra_simps smul_add smul_diff)

lemma smul_ring: "smul k (x::'a::ring_1) = of_int k * x"
  by (induction k rule: int_induct [where k = 0])
     (simp_all add: smul_succ smul_pred algebra_simps)

text \<open>Double-and-add, as a code equation: \<open>smul\<close> runs on 253-bit scalars.\<close>

lemma smul_code [code]:
  "smul k P = (if k = 0 then 0 else if k < 0 then - smul (- k) P
     else let Q = smul (k div 2) P in if even k then Q + Q else Q + Q + P)"
proof -
  have "smul k P = smul (2 * (k div 2) + k mod 2) P" by simp
  also have "\<dots> = smul (k div 2) P + smul (k div 2) P + smul (k mod 2) P"
    by (simp only: smul_add mult_2)
  finally have *: "smul k P = smul (k div 2) P + smul (k div 2) P + smul (k mod 2) P" .
  show ?thesis
  proof (cases "even k")
    case True
    then have "k mod 2 = 0" by simp
    with * True show ?thesis by (simp add: Let_def smul_minus)
  next
    case False
    then have "k mod 2 = 1" by (simp add: odd_iff_mod_2_eq_one)
    with * False show ?thesis by (auto simp add: Let_def smul_minus)
  qed
qed

lemma ell_pos: "0 < ell"
  by (simp add: ell_def)

lemma ell_bounds: "2 ^ 252 < ell" "ell < 2 ^ 253"
  by (simp_all add: ell_def)

lemma smul_cong_mod:
  fixes P :: "'g::ab_group_add"
  assumes "smul ell P = 0" "ell dvd (x - y)"
  shows "smul x P = smul y P"
proof -
  from assms(2) obtain k where "x - y = ell * k" by (auto simp: dvd_def)
  then have "x = y + k * ell" by (simp add: algebra_simps)
  then show ?thesis by (simp add: smul_add smul_mult assms(1))
qed

subsection \<open>Bytes and signed digits\<close>

lemma length_le_bytes [simp]: "length (le_bytes n v) = n"
  by (induction n arbitrary: v) simp_all

lemma le_value_le_bytes: "le_value (le_bytes n v) = v mod 256 ^ n"
proof (induction n arbitrary: v)
  case 0
  show ?case by simp
next
  case (Suc n)
  have "uint (word_of_int v :: byte) = v mod 256" by (simp add: uint_word_of_int)
  then have "le_value (le_bytes (Suc n) v) = v mod 256 + 256 * ((v div 256) mod 256 ^ n)"
    by (simp add: Suc)
  also have "\<dots> = v mod (256 * 256 ^ n)"
    by (simp add: zmod_zmult2_eq)
  finally show ?case by simp
qed

lemma take_le_bytes: "k \<le> n \<Longrightarrow> take k (le_bytes n v) = le_bytes k v"
proof (induction k arbitrary: n v)
  case 0
  show ?case by simp
next
  case (Suc k)
  then obtain n' where "n = Suc n'" by (cases n) auto
  with Suc show ?case by simp
qed

lemma drop_le_bytes: "k \<le> n \<Longrightarrow> drop k (le_bytes n v) = le_bytes (n - k) (v div 256 ^ k)"
proof (induction k arbitrary: n v)
  case 0
  show ?case by simp
next
  case (Suc k)
  then obtain n' where n: "n = Suc n'" by (cases n) auto
  with Suc have "drop (Suc k) (le_bytes n v) = le_bytes (n' - k) (v div 256 div 256 ^ k)" by simp
  also have "v div 256 div 256 ^ k = v div 256 ^ Suc k"
    by (simp add: zdiv_zmult2_eq)
  finally show ?case using n by simp
qed

lemma le_value_append_zeros: "le_value (bs @ replicate m 0) = le_value bs"
proof (induction bs)
  case Nil
  show ?case by (induction m) simp_all
next
  case (Cons b bs)
  then show ?case by simp
qed

lemma length_copy_go [simp]: "length (copy_go dst src) = length dst"
  by (simp add: copy_go_def)

lemma length_naf_from [simp]: "length (naf_from w n x) = n"
  by (induction n arbitrary: x) (simp_all add: Let_def)

text \<open>
  The digits denote the scalar, provided the scalar leaves one bit of headroom: the last
  carry of the recoding then falls inside the array.
\<close>

lemma naf_from_value:
  "2 \<le> w \<Longrightarrow> 0 \<le> x \<Longrightarrow> 2 * x \<le> 2 ^ n \<Longrightarrow> digits_value (naf_from w n x) = x"
proof (induction n arbitrary: x)
  case 0
  then have "x = 0" by simp
  then show ?case by simp
next
  case (Suc n)
  from Suc.prems have xn: "x \<le> 2 ^ n" by simp
  show ?case
  proof (cases "even x")
    case True
    then have "2 * (x div 2) = x" by simp
    with Suc.prems xn have "digits_value (naf_from w n (x div 2)) = x div 2"
      by (intro Suc.IH) simp_all
    with True show ?thesis by simp
  next
    case False
    define m where "m = x mod 2 ^ w"
    define d where "d = (if m < 2 ^ (w - 1) then m else m - 2 ^ w)"
    have m0: "0 \<le> m" and mw: "m < 2 ^ w" by (simp_all add: m_def)
    have mx: "m \<le> x" unfolding m_def using Suc.prems(2) by (simp add: zmod_le_nonneg_dividend)
    have w1: "(2::int) ^ w = 2 * 2 ^ (w - 1)" using Suc.prems(1)
      by (cases w) simp_all
    have dvd: "2 ^ w dvd x - m" unfolding m_def by (simp add: dvd_minus_mod)
    have "2 ^ w dvd x - d" using dvd unfolding d_def
      by (auto simp: algebra_simps intro: dvd_add)
    then have ev: "even (x - d)" using Suc.prems(1) w1 by (metis dvd_mult_left)
    have lo: "0 \<le> x - d" unfolding d_def using mx m0 mw Suc.prems(2) by auto
    have hi: "x - d \<le> 2 ^ n"
    proof (cases "m < 2 ^ (w - 1)")
      case True
      then show ?thesis unfolding d_def using xn m0 by simp
    next
      case big: False
      have d: "x - d = (x - m) + 2 ^ w" unfolding d_def using big by simp
      have wn: "w \<le> n"
      proof (rule ccontr)
        assume "\<not> w \<le> n"
        then have "n \<le> w - 1" by simp
        then have "(2::int) ^ n \<le> 2 ^ (w - 1)" by (intro power_increasing) simp_all
        with xn have xle: "x \<le> 2 ^ (w - 1)" by (rule order_trans)
        have "x \<noteq> 2 ^ (w - 1)" using False Suc.prems(1) by (cases "w - 1") auto
        with xle have "x < 2 ^ (w - 1)" by simp
        moreover have "(0::int) < 2 ^ (w - 1)" by simp
        with xle w1 have "x < 2 ^ w" by linarith
        then have "m = x" unfolding m_def using Suc.prems(2) by simp
        ultimately show False using big by simp
      qed
      have xlt: "x < 2 ^ n"
      proof -
        have "x \<noteq> 2 ^ n" using False wn Suc.prems(1) by (cases n) auto
        with xn show ?thesis by simp
      qed
      define q where "q = x div 2 ^ w"
      have xm: "x - m = 2 ^ w * q" unfolding m_def q_def by (simp add: minus_mod_eq_mult_div)
      have pn: "(2::int) ^ n = 2 ^ w * 2 ^ (n - w)" using wn by (simp flip: power_add)
      have "q < 2 ^ (n - w)"
      proof (rule ccontr)
        assume "\<not> q < 2 ^ (n - w)"
        then have "2 ^ w * 2 ^ (n - w) \<le> 2 ^ w * q" by simp
        with pn xm have "2 ^ n \<le> x - m" by simp
        with m0 xlt show False by simp
      qed
      then have "q + 1 \<le> 2 ^ (n - w)" by simp
      then have "2 ^ w * (q + 1) \<le> (2::int) ^ w * 2 ^ (n - w)" by (intro mult_left_mono) simp_all
      with pn xm d show ?thesis by (simp add: algebra_simps)
    qed
    have "digits_value (naf_from w n ((x - d) div 2)) = (x - d) div 2"
      using Suc.prems(1) lo hi ev by (intro Suc.IH) simp_all
    moreover have "naf_from w (Suc n) x = d # naf_from w n ((x - d) div 2)"
      using False unfolding d_def m_def by (simp add: Let_def)
    ultimately show ?thesis using ev by simp
  qed
qed

lemma naf_from_digits: "2 \<le> w \<Longrightarrow> d \<in> set (naf_from w n x) \<Longrightarrow> digit_ok w d"
proof (induction n arbitrary: x)
  case 0
  then show ?case by simp
next
  case (Suc n)
  show ?case
  proof (cases "even x")
    case True
    with Suc show ?thesis by (auto simp: digit_ok_def)
  next
    case False
    define m where "m = x mod 2 ^ w"
    define e where "e = (if m < 2 ^ (w - 1) then m else m - 2 ^ w)"
    have w1: "(2::int) ^ w = 2 * 2 ^ (w - 1)" using Suc.prems(1) by (cases w) simp_all
    have m0: "0 \<le> m" and mw: "m < 2 ^ w" by (simp_all add: m_def)
    have "(2::int) dvd 2 ^ w" using w1 by simp
    then have "odd m" unfolding m_def using False by (simp add: dvd_mod_iff)
    then have oe: "odd e" unfolding e_def using w1 by auto
    have "even ((2::int) ^ (w - 1))" using Suc.prems(1) by simp
    with \<open>odd m\<close> have "m \<noteq> 2 ^ (w - 1)" by auto
    then have "\<bar>e\<bar> < 2 ^ (w - 1)" unfolding e_def using m0 mw w1
      by (auto simp: abs_if)
    with oe have "digit_ok w e" by (simp add: digit_ok_def)
    moreover have "d = e \<or> d \<in> set (naf_from w n ((x - e) div 2))"
      using Suc.prems(2) False unfolding e_def m_def by (simp add: Let_def)
    ultimately show ?thesis using Suc.IH Suc.prems(1) by blast
  qed
qed

lemma naf_ctx:
  assumes "2 \<le> w" "0 \<le> x" "x < 2 ^ 255"
  shows "length (NonAdjacentForm w x) = 256"
    and "\<forall>d \<in> set (NonAdjacentForm w x). digit_ok w d"
    and "digits_value (NonAdjacentForm w x) = x"
proof -
  show "length (NonAdjacentForm w x) = 256" by (simp add: NonAdjacentForm_def)
  show "\<forall>d \<in> set (NonAdjacentForm w x). digit_ok w d"
    using naf_from_digits [OF assms(1)] by (auto simp: NonAdjacentForm_def)
  have "2 * x \<le> 2 ^ 256" using assms(3) by simp
  then show "digits_value (NonAdjacentForm w x) = x"
    unfolding NonAdjacentForm_def using assms by (intro naf_from_value) simp_all
qed

lemma digits_value_append:
  "digits_value (xs @ ys) = digits_value xs + 2 ^ length xs * digits_value ys"
  by (induction xs) (simp_all add: algebra_simps)

lemma digits_value_zeros: "\<forall>d \<in> set ds. d = 0 \<Longrightarrow> digits_value ds = 0"
  by (induction ds) simp_all

subsection \<open>The reduced basis\<close>

lemma norm2_nonneg: "0 \<le> norm2 v"
  by (simp add: norm2_def)

lemma lagrange_identity: "norm2 u * norm2 v = inner u v * inner u v + det u v * det u v"
  by (simp add: norm2_def inner_def det_def algebra_simps)

lemma det_swap: "det v u = - det u v"
  by (simp add: det_def)

lemma det_sub_mul: "det v (sub_mul u q v) = - det u v"
  by (simp add: det_def sub_mul_def algebra_simps)

lemma in_lattice_sub_mul: "in_lattice a u \<Longrightarrow> in_lattice a v \<Longrightarrow> in_lattice a (sub_mul u q v)"
proof -
  assume "in_lattice a u" "in_lattice a v"
  then have "ell dvd fst u - a * snd u" "ell dvd q * (fst v - a * snd v)"
    unfolding in_lattice_def by (simp_all add: dvd_mult)
  then have "ell dvd (fst u - a * snd u) - q * (fst v - a * snd v)"
    by (rule dvd_diff)
  then show ?thesis by (simp add: in_lattice_def sub_mul_def algebra_simps)
qed

lemma inner_sub_mul: "inner (sub_mul u q v) v = inner u v - q * norm2 v"
  by (simp add: inner_def sub_mul_def norm2_def algebra_simps)

lemma round_div_bounds:
  assumes "0 < b"
  shows "- b \<le> 2 * (a - round_div a b * b)" and "2 * (a - round_div a b * b) < b"
proof -
  define q where "q = round_div a b"
  have "2 * a + b = (2 * b) * q + (2 * a + b) mod (2 * b)"
    unfolding q_def round_div_def by simp
  moreover have "0 \<le> (2 * a + b) mod (2 * b)" "(2 * a + b) mod (2 * b) < 2 * b"
    using assms by simp_all
  ultimately have "2 * b * q \<le> 2 * a + b" "2 * a + b < 2 * b * q + 2 * b" by linarith+
  then show "- b \<le> 2 * (a - round_div a b * b)" "2 * (a - round_div a b * b) < b"
    unfolding q_def [symmetric] by (simp_all add: algebra_simps)
qed

text \<open>
  Where the reduction stops, the returned row \<open>v\<close> and the other row \<open>u'\<close> satisfy
  \<open>|v| \<le> |u'|\<close> and \<open>2 |\<langle>u', v\<rangle>| \<le> |v|\<^sup>2\<close>; with the determinant \<open>\<plusminus> ell\<close> of the basis and
  Lagrange's identity this bounds \<open>|v|\<^sup>4\<close> by \<open>4/3 ell\<^sup>2\<close>.
\<close>

lemma gauss_stop:
  assumes d: "det u v * det u v = ell * ell"
    and le: "norm2 v \<le> norm2 (sub_mul u (round_div (inner u v) (norm2 v)) v)"
  shows "reduced_short v"
proof -
  define q where "q = round_div (inner u v) (norm2 v)"
  define u' where "u' = sub_mul u q v"
  define N where "N = norm2 v"
  define I where "I = inner u' v"
  have N0: "0 \<le> N" by (simp add: N_def norm2_nonneg)
  have "4 * (I * I) \<le> N * N"
  proof (cases "N = 0")
    case True
    then have "fst v = 0 \<and> snd v = 0"
      unfolding N_def norm2_def by (metis add_nonneg_eq_0_iff mult_eq_0_iff zero_le_square)
    then show ?thesis using True by (simp add: I_def inner_def)
  next
    case False
    with N0 have pos: "0 < N" by simp
    have I: "I = inner u v - q * N" by (simp add: I_def u'_def inner_sub_mul N_def)
    from round_div_bounds [OF pos, of "inner u v"]
    have "- N \<le> 2 * I" "2 * I < N" unfolding I q_def N_def by simp_all
    then have "\<bar>2 * I\<bar> \<le> N" by simp
    then have "\<bar>2 * I\<bar> * \<bar>2 * I\<bar> \<le> N * N" by (intro mult_mono) simp_all
    then show ?thesis by (simp add: abs_mult algebra_simps)
  qed
  moreover have "det u' v * det u' v = ell * ell"
    using d det_sub_mul [of v u q] det_swap [of u' v] by (simp add: u'_def)
  moreover have "norm2 u' * N = I * I + det u' v * det u' v"
    by (simp add: lagrange_identity I_def N_def)
  moreover have "N * N \<le> norm2 u' * N"
    using le N0 by (intro mult_right_mono) (simp_all add: N_def u'_def q_def)
  ultimately show ?thesis unfolding reduced_short_def N_def [symmetric] by linarith
qed

lemma gauss_invariant:
  "in_lattice a u \<Longrightarrow> in_lattice a v \<Longrightarrow> det u v * det u v = ell * ell \<Longrightarrow>
   in_lattice a (gauss u v) \<and> reduced_short (gauss u v) \<and> gauss u v \<noteq> (0, 0)"
proof (induction u v rule: gauss.induct)
  case (1 u v)
  show ?case
  proof (cases "norm2 u < norm2 v")
    case True
    have "det v u * det v u = ell * ell" using "1.prems"(3) by (simp add: det_swap [of u v])
    with True "1.IH"(1) "1.prems"
    have "in_lattice a (gauss v u) \<and> reduced_short (gauss v u) \<and> gauss v u \<noteq> (0, 0)"
      by blast
    moreover from True have "gauss u v = gauss v u" by (subst gauss.simps) simp
    ultimately show ?thesis by simp
  next
    case False
    define q where "q = round_div (inner u v) (norm2 v)"
    define u' where "u' = sub_mul u q v"
    show ?thesis
    proof (cases "norm2 u' < norm2 v")
      case True
      have l: "in_lattice a u'" unfolding u'_def by (intro in_lattice_sub_mul "1.prems")
      have d: "det v u' * det v u' = ell * ell"
        using "1.prems"(3) by (simp add: u'_def det_sub_mul)
      from "1.IH"(2) [OF False q_def u'_def True "1.prems"(2) l d]
      have "in_lattice a (gauss v u') \<and> reduced_short (gauss v u') \<and> gauss v u' \<noteq> (0, 0)" .
      moreover from True False have "gauss u v = gauss v u'"
        by (subst gauss.simps) (simp add: Let_def q_def u'_def)
      ultimately show ?thesis by simp
    next
      case stop: False
      from stop False have g: "gauss u v = v"
        by (subst gauss.simps) (simp add: Let_def q_def u'_def)
      from stop have "norm2 v \<le> norm2 (sub_mul u (round_div (inner u v) (norm2 v)) v)"
        by (simp add: u'_def q_def)
      with "1.prems"(3) have "reduced_short v" by (rule gauss_stop)
      moreover have "v \<noteq> (0, 0)"
      proof
        assume "v = (0, 0)"
        then have "det u v = 0" by (simp add: det_def)
        with "1.prems"(3) ell_pos show False by simp
      qed
      ultimately show ?thesis using g "1.prems"(2) by simp
    qed
  qed
qed

lemma reduced_short_bound:
  assumes "reduced_short v"
  shows "norm2 v < 2 ^ 254"
proof (rule ccontr)
  assume "\<not> norm2 v < 2 ^ 254"
  then have "(2::int) ^ 254 \<le> norm2 v" by simp
  then have "(2::int) ^ 254 * 2 ^ 254 \<le> norm2 v * norm2 v" by (intro mult_mono) simp_all
  moreover have "ell * ell < 2 ^ 253 * 2 ^ 253"
    using ell_bounds by (intro mult_strict_mono) simp_all
  ultimately show False using assms unfolding reduced_short_def by simp
qed

lemma square_bound:
  fixes x :: int
  assumes "x * x < 2 ^ 254"
  shows "\<bar>x\<bar> < 2 ^ 127"
proof (rule ccontr)
  assume "\<not> \<bar>x\<bar> < 2 ^ 127"
  then have "(2::int) ^ 127 \<le> \<bar>x\<bar>" by simp
  then have "(2::int) ^ 127 * 2 ^ 127 \<le> \<bar>x\<bar> * \<bar>x\<bar>" by (intro mult_mono) simp_all
  with assms show False by (simp add: abs_mult_self_eq)
qed

lemma FindShortVector_props:
  assumes "FindShortVector a = (d0, d1)"
  shows "ell dvd (d0 - a * d1)" and "\<bar>d0\<bar> < 2 ^ 127" and "\<bar>d1\<bar> < 2 ^ 127" and "d1 \<noteq> 0"
proof -
  have "in_lattice a (ell, 0)" "in_lattice a (a, 1)"
    "det (ell, 0) (a, 1) * det (ell, 0) (a, 1) = ell * ell"
    by (simp_all add: in_lattice_def det_def)
  from gauss_invariant [OF this] assms
  have l: "in_lattice a (d0, d1)" and r: "reduced_short (d0, d1)" and nz: "(d0, d1) \<noteq> (0, 0)"
    by (simp_all add: FindShortVector_def)
  from l show dv: "ell dvd (d0 - a * d1)" by (simp add: in_lattice_def)
  from reduced_short_bound [OF r] have n: "d0 * d0 + d1 * d1 < 2 ^ 254" by (simp add: norm2_def)
  have "0 \<le> d0 * d0" "0 \<le> d1 * d1" by simp_all
  with n have s0: "d0 * d0 < 2 ^ 254" and s1: "d1 * d1 < 2 ^ 254" by linarith+
  from s0 show b0: "\<bar>d0\<bar> < 2 ^ 127" by (rule square_bound)
  from s1 show "\<bar>d1\<bar> < 2 ^ 127" by (rule square_bound)
  show "d1 \<noteq> 0"
  proof
    assume z: "d1 = 0"
    with dv have "ell dvd d0" by simp
    moreover have "d0 \<noteq> 0" using nz z by simp
    ultimately have "ell \<le> \<bar>d0\<bar>" using ell_bounds by (intro zdvd_imp_le) (simp_all add: dvd_abs_iff)
    with b0 ell_bounds show False by simp
  qed
qed

lemma FindShortVector_zero: "FindShortVector 0 = (0, 1)"
  unfolding FindShortVector_def
  by (subst gauss.simps) (simp add: norm2_def inner_def round_div_def sub_mul_def ell_def Let_def)

lemma FindShortVector_half: "FindShortVector ((ell + 1) div 2) = (- 1, - 2)"
  unfolding FindShortVector_def ell_def
  by (simp add: gauss.simps norm2_def inner_def round_div_def sub_mul_def Let_def)

subsection \<open>What the loop computes\<close>

lemma length_table_from [simp]: "length (table_from n A2 cur) = n"
  by (induction n arbitrary: cur) simp_all

lemma table_from_nth: "i < n \<Longrightarrow> table_from n A2 cur ! i = cur + smul (int i) A2"
proof (induction n arbitrary: cur i)
  case 0 then show ?case by simp
next
  case (Suc n)
  show ?case
  proof (cases i)
    case 0 then show ?thesis by simp
  next
    case (Suc k)
    with Suc.prems have "k < n" by simp
    from Suc.IH [OF this, of "A2 + cur"] Suc
    have "table_from (Suc n) A2 cur ! i = A2 + cur + smul (int k) A2" by simp
    also have "\<dots> = cur + smul (int k + 1) A2" by (simp only: smul_succ) (simp add: algebra_simps)
    also have "int k + 1 = int i" using Suc by simp
    finally show ?thesis .
  qed
qed

lemma table_from_odd: "is_odd_table n (table_from n (Double P) P) P"
proof -
  have "P + smul (int k) (P + P) = smul (2 * int k + 1) P" for k
  proof -
    have "smul (2 * int k + 1) P = smul (int k + int k + 1) P" by (simp only: mult_2)
    also have "\<dots> = smul (int k) P + smul (int k) P + P" by (simp only: smul_succ smul_add smul_1)
    finally show ?thesis by (simp add: smul_add_right add.commute)
  qed
  then show ?thesis by (simp add: is_odd_table_def table_from_nth Double_def)
qed

lemma odd_multiples_odd: "is_odd_table n (odd_multiples n P) P"
  by (simp add: is_odd_table_def odd_multiples_def)

lemma naf_term_value:
  fixes t :: "'g::ab_group_add"
  assumes tbl: "is_odd_table n tbl P"
    and d: "d = 0 \<or> (odd d \<and> \<bar>d\<bar> < 2 * int n)"
    and n: "n \<le> 64"
    and add: "\<And>x y. add x y = x + y" and sub: "\<And>x y. sub x y = x - y"
  shows "naf_term add sub tbl d t = Inr (t + smul d P)"
proof -
  have look: "Lookup tbl (uint8 e) = Inr (smul e P)" if "odd e" "0 < e" "e < 2 * int n" for e
  proof -
    have e256: "e < 256" using that n by simp
    then have u: "uint8 e = nat e" using that by (simp add: uint8_def)
    have idx: "nat e div 2 < n" using that by linarith
    have "2 * int (nat e div 2) + 1 = e"
    proof -
      have "int (nat e div 2) = e div 2" using that by (simp add: zdiv_int)
      moreover have "2 * (e div 2) + 1 = e" using that(1) by (simp add: odd_two_times_div_two_succ)
      ultimately show ?thesis by simp
    qed
    with tbl idx have "tbl ! (nat e div 2) = smul e P" by (simp add: is_odd_table_def)
    with tbl idx u show ?thesis by (simp add: Lookup_def is_odd_table_def)
  qed
  consider "d = 0" | "odd d" "0 < d" | "odd d" "d < 0" using d by fastforce
  then show ?thesis
  proof cases
    case 1 then show ?thesis by (simp add: naf_term_def)
  next
    case 2
    with d have "d < 2 * int n" by auto
    from look [OF 2 this] 2 show ?thesis by (simp add: naf_term_def add)
  next
    case 3
    with d have "odd (- d)" "0 < - d" "- d < 2 * int n" by auto
    from look [OF this] 3 show ?thesis by (simp add: naf_term_def sub smul_minus)
  qed
qed

lemma lin_add:
  "lin P0 P1 P2 P3 a0 a1 a2 a3 + lin P0 P1 P2 P3 b0 b1 b2 b3 =
   lin P0 P1 P2 P3 (a0 + b0) (a1 + b1) (a2 + b2) (a3 + b3)"
  by (simp add: lin_def smul_add algebra_simps)

lemma smul_lin:
  "smul k (lin P0 P1 P2 P3 a0 a1 a2 a3) = lin P0 P1 P2 P3 (k * a0) (k * a1) (k * a2) (k * a3)"
  by (simp add: lin_def smul_add_right smul_mult)

lemma generic_body_value:
  fixes r :: "'g::ab_group_add"
  assumes "ctx_ok c P0 P1 P2 P3" and "i < 256"
  shows "generic_body c i r =
    Inr (r + r + lin P0 P1 P2 P3 (d_0_naf c ! i) (e_0_naf c ! i) (e_1_naf c ! i) (d_1_naf c ! i))"
proof -
  from assms have d0: "digit_ok 5 (d_0_naf c ! i)" and d1: "digit_ok 8 (e_0_naf c ! i)"
    and d2: "digit_ok 8 (e_1_naf c ! i)" and d3: "digit_ok 5 (d_1_naf c ! i)"
    by (simp_all add: ctx_ok_def)
  have t0: "naf_term AddCompletedProjectiveNiels SubCompletedProjectiveNiels (tableA c) (d_0_naf c ! i) t
            = Inr (t + smul (d_0_naf c ! i) P0)" for t
    using assms(1) d0
    by (intro naf_term_value [where n = 8])
       (simp_all add: ctx_ok_def digit_ok_def AddCompletedProjectiveNiels_def SubCompletedProjectiveNiels_def)
  have t1: "naf_term AddCompletedAffineNiels SubCompletedAffineNiels (tableB c) (e_0_naf c ! i) t
            = Inr (t + smul (e_0_naf c ! i) P1)" for t
    using assms(1) d1
    by (intro naf_term_value [where n = 64])
       (simp_all add: ctx_ok_def digit_ok_def AddCompletedAffineNiels_def SubCompletedAffineNiels_def)
  have t2: "naf_term AddCompletedAffineNiels SubCompletedAffineNiels (tableB_SHL_128 c) (e_1_naf c ! i) t
            = Inr (t + smul (e_1_naf c ! i) P2)" for t
    using assms(1) d2
    by (intro naf_term_value [where n = 64])
       (simp_all add: ctx_ok_def digit_ok_def AddCompletedAffineNiels_def SubCompletedAffineNiels_def)
  have t3: "naf_term AddCompletedProjectiveNiels SubCompletedProjectiveNiels (tableNegC c) (d_1_naf c ! i) t
            = Inr (t + smul (d_1_naf c ! i) P3)" for t
    using assms(1) d3
    by (intro naf_term_value [where n = 8])
       (simp_all add: ctx_ok_def digit_ok_def AddCompletedProjectiveNiels_def SubCompletedProjectiveNiels_def)
  show ?thesis
    by (simp add: generic_body_def then_do_def t0 t1 t2 t3 Double_def SetCompleted_def lin_def add.assoc)
qed

lemma upto_value_0: "0 < length ds \<Longrightarrow> upto_value ds 0 = ds ! 0"
  by (cases ds) (simp_all add: upto_value_def)

lemma upto_value_Suc:
  "Suc i < length ds \<Longrightarrow> upto_value ds (Suc i) = 2 ^ Suc i * ds ! Suc i + upto_value ds i"
  by (simp add: upto_value_def take_Suc_conv_app_nth [of "Suc i"] digits_value_append)

lemma upto_value_all:
  assumes "i < length ds" and "\<forall>j. i < j \<and> j < length ds \<longrightarrow> ds ! j = 0"
  shows "upto_value ds i = digits_value ds"
proof -
  have "\<forall>d \<in> set (drop (Suc i) ds). d = 0"
  proof
    fix d assume "d \<in> set (drop (Suc i) ds)"
    then obtain k where "k < length ds - Suc i" "d = drop (Suc i) ds ! k"
      by (auto simp: in_set_conv_nth)
    with assms(2) show "d = 0" by simp
  qed
  then have "digits_value (drop (Suc i) ds) = 0" by (rule digits_value_zeros)
  moreover have "digits_value ds = digits_value (take (Suc i) ds @ drop (Suc i) ds)" by simp
  ultimately show ?thesis unfolding upto_value_def digits_value_append by simp
qed

lemma generic_loop_value:
  fixes r :: "'g::ab_group_add"
  assumes "ctx_ok c P0 P1 P2 P3"
  shows "i < 256 \<Longrightarrow> generic_loop c i r =
    Inr (smul (2 ^ Suc i) r + lin P0 P1 P2 P3 (upto_value (d_0_naf c) i) (upto_value (e_0_naf c) i)
                                (upto_value (e_1_naf c) i) (upto_value (d_1_naf c) i))"
proof (induction i arbitrary: r)
  case 0
  have "smul 2 r = r + r" using smul_succ [of 1 r] by simp
  moreover have "0 < length (d_0_naf c)" "0 < length (e_0_naf c)" "0 < length (e_1_naf c)"
    "0 < length (d_1_naf c)" using assms by (simp_all add: ctx_ok_def)
  ultimately show ?case
    by (subst generic_loop.simps) (simp add: generic_body_value [OF assms] upto_value_0)
next
  case (Suc i)
  define t where "t = lin P0 P1 P2 P3 (d_0_naf c ! Suc i) (e_0_naf c ! Suc i) (e_1_naf c ! Suc i) (d_1_naf c ! Suc i)"
  have len: "Suc i < length (d_0_naf c)" "Suc i < length (e_0_naf c)" "Suc i < length (e_1_naf c)"
    "Suc i < length (d_1_naf c)" using assms Suc.prems by (simp_all add: ctx_ok_def)
  have body: "generic_body c (Suc i) r = Inr (r + r + t)"
    using generic_body_value [OF assms Suc.prems] by (simp add: t_def)
  have "generic_loop c (Suc i) r = generic_loop c i (r + r + t)"
    by (subst generic_loop.simps) (simp add: body)
  also have "\<dots> = Inr (smul (2 ^ Suc i) (r + r + t) + lin P0 P1 P2 P3 (upto_value (d_0_naf c) i)
      (upto_value (e_0_naf c) i) (upto_value (e_1_naf c) i) (upto_value (d_1_naf c) i))"
    using Suc.prems by (intro Suc.IH) simp
  also have "smul (2 ^ Suc i) (r + r + t) = smul (2 ^ Suc (Suc i)) r + smul (2 ^ Suc i) t"
  proof -
    have "smul (2 ^ Suc (Suc i)) r = smul (2 ^ Suc i + 2 ^ Suc i) r" by simp
    then show ?thesis by (simp only: smul_add smul_add_right)
  qed
  finally show ?case
    by (simp only: t_def smul_lin lin_add add.assoc upto_value_Suc [OF len(1)] upto_value_Suc [OF len(2)]
        upto_value_Suc [OF len(3)] upto_value_Suc [OF len(4)])
qed

lemma find_start_le: "find_start n0 n1 n2 n3 k \<le> k"
  by (induction k) auto

lemma find_start_above:
  "find_start n0 n1 n2 n3 k < j \<Longrightarrow> j \<le> k \<Longrightarrow> \<not> nonzero_at n0 n1 n2 n3 j"
proof (induction k)
  case 0 then show ?case by simp
next
  case (Suc k)
  show ?case
  proof (cases "nonzero_at n0 n1 n2 n3 (Suc k)")
    case True with Suc.prems show ?thesis by simp
  next
    case False
    show ?thesis
    proof (cases "j = Suc k")
      case True with False show ?thesis by simp
    next
      case neq: False
      with Suc.prems False show ?thesis by (intro Suc.IH) simp_all
    qed
  qed
qed

lemma find_start_hit:
  "nonzero_at n0 n1 n2 n3 (find_start n0 n1 n2 n3 k) \<or> find_start n0 n1 n2 n3 k = 0"
  by (induction k) auto

lemma high_half_bounds:
  fixes x :: int
  assumes "0 \<le> x" "x < 2 ^ 253"
  shows "0 \<le> x div 2 ^ 128" and "x div 2 ^ 128 < 2 ^ 125"
proof -
  show "0 \<le> x div 2 ^ 128" using assms(1) by (simp add: pos_imp_zdiv_nonneg_iff)
  have "x = 2 ^ 128 * (x div 2 ^ 128) + x mod 2 ^ 128" by simp
  moreover have "0 \<le> x mod 2 ^ 128" by simp
  ultimately have "2 ^ 128 * (x div 2 ^ 128) \<le> x" by linarith
  with assms(2) have "2 ^ 128 * (x div 2 ^ 128) < 2 ^ 128 * (2 ^ 125 :: int)" by simp
  then show "x div 2 ^ 128 < 2 ^ 125" by (simp only: mult_less_cancel_left_pos zero_less_power zero_less_numeral)
qed

lemma split_db_value:
  assumes "0 \<le> db" "db < ell"
  shows "split_db db = Inr (db mod 2 ^ 128, db div 2 ^ 128)"
proof -
  have p: "(256::int) ^ 16 = 2 ^ 128" by simp
  have tb: "ToBytes db (replicate 32 0) = Inr (le_bytes 32 db)"
    using assms by (simp add: ToBytes_def)
  have b1: "copy_go (take 16 (replicate 32 (0::byte))) (take 16 (le_bytes 32 db)) @ drop 16 (replicate 32 0)
            = le_bytes 16 db @ replicate 16 0"
    by (simp add: copy_go_def take_le_bytes)
  have b2: "copy_go (take 16 (le_bytes 16 db @ replicate 16 (0::byte))) (drop 16 (le_bytes 32 db))
              @ drop 16 (le_bytes 16 db @ replicate 16 0)
            = le_bytes 16 (db div 2 ^ 128) @ replicate 16 0"
    using drop_le_bytes [of 16 32 db] by (simp add: copy_go_def)
  have lo: "db mod 2 ^ 128 < ell"
  proof -
    have "db mod 2 ^ 128 < 2 ^ 128" by simp
    also have "\<dots> < ell" by (simp add: ell_def)
    finally show ?thesis .
  qed
  have db253: "db < 2 ^ 253" using assms(2) ell_bounds(2) by (rule less_trans)
  from assms(1) db253 have hi1: "0 \<le> db div 2 ^ 128" by (rule high_half_bounds)
  from assms(1) db253 have hi0: "db div 2 ^ 128 < 2 ^ 125" by (rule high_half_bounds)
  have hi: "db div 2 ^ 128 mod 2 ^ 128 mod ell = db div 2 ^ 128"
  proof -
    have "db div 2 ^ 128 < 2 ^ 128" using hi0 by simp
    moreover have "db div 2 ^ 128 < ell" using hi0 by (simp add: ell_def)
    ultimately show ?thesis using hi1 by simp
  qed
  have s1: "SetBits (le_bytes 16 db @ replicate 16 0) = Inr (db mod 2 ^ 128)"
    using lo by (simp add: SetBits_def le_value_append_zeros le_value_le_bytes)
  have s2: "SetBits (le_bytes 16 (db div 2 ^ 128) @ replicate 16 0) = Inr (db div 2 ^ 128)"
    using hi by (simp add: SetBits_def le_value_append_zeros le_value_le_bytes)
  show ?thesis
    unfolding split_db_def Let_def tb sum.case b1 s1 b2 s2 by (rule refl)
qed

lemma straus_ctx_ok:
  assumes "0 \<le> d_0" "d_0 < 2 ^ 255" "0 \<le> e_0" "e_0 < 2 ^ 255"
    and "0 \<le> e_1" "e_1 < 2 ^ 255" "0 \<le> d_1" "d_1 < 2 ^ 255"
    and "is_odd_table 8 tA p_A" "is_odd_table 64 tB B" "is_odd_table 64 tB128 B128"
    and "is_odd_table 8 tC negC"
  shows "ctx_ok (straus.make (NonAdjacentForm 5 d_0) (NonAdjacentForm 8 e_0) (NonAdjacentForm 8 e_1)
            (NonAdjacentForm 5 d_1) tA tB tB128 tC) p_A B B128 negC"
  unfolding ctx_ok_def straus.defs
  using assms by (simp add: naf_ctx)

lemma loop_from_start:
  fixes p_A :: "'g::ab_group_add"
  assumes ok: "ctx_ok c p_A B B128 negC"
  defines "i \<equiv> find_start (d_0_naf c) (e_0_naf c) (e_1_naf c) (d_1_naf c) 255"
  shows "generic_loop c i Identity =
           Inr (lin p_A B B128 negC (digits_value (d_0_naf c)) (digits_value (e_0_naf c))
                  (digits_value (e_1_naf c)) (digits_value (d_1_naf c)))"
proof -
  have i: "i < 256" unfolding i_def
    using find_start_le [of "d_0_naf c" "e_0_naf c" "e_1_naf c" "d_1_naf c" 255] by simp
  have z: "\<not> nonzero_at (d_0_naf c) (e_0_naf c) (e_1_naf c) (d_1_naf c) j" if "i < j" "j < 256" for j
    using that find_start_above [of "d_0_naf c" "e_0_naf c" "e_1_naf c" "d_1_naf c" 255 j]
    by (simp add: i_def)
  have len: "length (d_0_naf c) = 256" "length (e_0_naf c) = 256" "length (e_1_naf c) = 256"
    "length (d_1_naf c) = 256" using ok by (simp_all add: ctx_ok_def)
  have u0: "upto_value (d_0_naf c) i = digits_value (d_0_naf c)"
    using i z len by (intro upto_value_all) (auto simp: nonzero_at_def)
  have u1: "upto_value (e_0_naf c) i = digits_value (e_0_naf c)"
    using i z len by (intro upto_value_all) (auto simp: nonzero_at_def)
  have u2: "upto_value (e_1_naf c) i = digits_value (e_1_naf c)"
    using i z len by (intro upto_value_all) (auto simp: nonzero_at_def)
  have u3: "upto_value (d_1_naf c) i = digits_value (d_1_naf c)"
    using i z len by (intro upto_value_all) (auto simp: nonzero_at_def)
  show ?thesis
    unfolding generic_loop_value [OF ok i] u0 u1 u2 u3 by (simp add: Identity_def)
qed

lemma run_generic_value:
  fixes p_A :: "'g::ab_group_add"
  assumes ok: "ctx_ok c p_A B B128 negC"
  shows "run_generic c =
           Inr (lin p_A B B128 negC (digits_value (d_0_naf c)) (digits_value (e_0_naf c))
                  (digits_value (e_1_naf c)) (digits_value (d_1_naf c)))"
  by (simp only: run_generic_def Let_def loop_from_start [OF ok] then_do_def sum.case
      setProjective_def)

lemma straus_generic_value:
  fixes B p_A negC :: "'g::ab_group_add"
  assumes "0 \<le> d_0" "d_0 < 2 ^ 255" "0 \<le> e_0" "e_0 < 2 ^ 255"
    and "0 \<le> e_1" "e_1 < 2 ^ 255" "0 \<le> d_1" "d_1 < 2 ^ 255"
  shows "straus_generic B p_A negC d_0 e_0 e_1 d_1 =
           Inr (smul d_0 p_A + smul (e_0 + 2 ^ 128 * e_1) B + smul d_1 negC)"
proof -
  define c where "c = straus.make (NonAdjacentForm 5 d_0) (NonAdjacentForm 8 e_0)
      (NonAdjacentForm 8 e_1) (NonAdjacentForm 5 d_1)
      (newProjectiveNielsPointNafLookupTable p_A) (constAFFINE_ODD_MULTIPLES_OF_BASEPOINT B)
      (constAFFINE_ODD_MULTIPLES_OF_B_SHL_128 B) (newProjectiveNielsPointNafLookupTable negC)"
  have ok: "ctx_ok c p_A B (smul (2 ^ 128) B) negC"
    unfolding c_def using assms
    by (intro straus_ctx_ok)
       (simp_all add: newProjectiveNielsPointNafLookupTable_def table_from_odd
          constAFFINE_ODD_MULTIPLES_OF_BASEPOINT_def constAFFINE_ODD_MULTIPLES_OF_B_SHL_128_def
          odd_multiples_odd)
  have sel: "d_0_naf c = NonAdjacentForm 5 d_0" "e_0_naf c = NonAdjacentForm 8 e_0"
    "e_1_naf c = NonAdjacentForm 8 e_1" "d_1_naf c = NonAdjacentForm 5 d_1"
    by (simp_all add: c_def straus.defs)
  have dv: "digits_value (NonAdjacentForm 5 d_0) = d_0" "digits_value (NonAdjacentForm 8 e_0) = e_0"
    "digits_value (NonAdjacentForm 8 e_1) = e_1" "digits_value (NonAdjacentForm 5 d_1) = d_1"
    using assms by (simp_all add: naf_ctx)
  have "smul e_0 B + smul e_1 (smul (2 ^ 128) B) = smul (e_0 + 2 ^ 128 * e_1) B"
    by (simp only: smul_add smul_mult [symmetric] mult.commute)
  then have l: "lin p_A B (smul (2 ^ 128) B) negC d_0 e_0 e_1 d_1
        = smul d_0 p_A + smul (e_0 + 2 ^ 128 * e_1) B + smul d_1 negC"
    by (simp only: lin_def add.assoc)
  have "straus_generic B p_A negC d_0 e_0 e_1 d_1 = run_generic c"
    by (simp only: straus_generic_def c_def)
  also have "\<dots> = Inr (lin p_A B (smul (2 ^ 128) B) negC d_0 e_0 e_1 d_1)"
    by (simp only: run_generic_value [OF ok] sel dv)
  finally show ?thesis unfolding l .
qed

lemma generic_value:
  fixes B :: "'g::ab_group_add"
  assumes fsv: "FindShortVector a = (d0, d1)"
  shows "edwardsMulAbglsvPorninVartimeGeneric B a A b C =
           Inr (smul d0 A + smul ((b * d1) mod ell) B - smul d1 C)"
proof -
  note props = FindShortVector_props [OF fsv]
  have small: "x < ell" if "x < 2 ^ 127" for x :: int
    using that by (simp add: ell_def)
  define p_A where "p_A = (if IsNegative d0 then EdwardsPoint_Neg A else EdwardsPoint_Set A)"
  define s_b where "s_b = (if IsNegative d1 then Scalar_Neg b else Scalar_Set b)"
  define negC where "negC = (if IsNegative d1 then EdwardsPoint_Set C else EdwardsPoint_Neg C)"
  define db where "db = Scalar_Mul s_b (ToScalar (Abs d1))"
  have d_0: "ToScalar (Abs d0) = \<bar>d0\<bar>" using small [OF props(2)] by (simp add: ToScalar_def Abs_def)
  have d_1: "ToScalar (Abs d1) = \<bar>d1\<bar>" using small [OF props(3)] by (simp add: ToScalar_def Abs_def)
  have db0: "0 \<le> db" "db < ell" using ell_pos by (simp_all add: db_def Scalar_Mul_def)
  have dbv: "db = (b * d1) mod ell"
  proof (cases "d1 < 0")
    case True
    then have "db = ((- b) mod ell * (- d1)) mod ell"
      by (simp add: db_def s_b_def IsNegative_def Scalar_Neg_def Scalar_Mul_def d_1)
    also have "\<dots> = ((- b) * (- d1)) mod ell" by (rule mod_mult_left_eq)
    finally show ?thesis by simp
  next
    case False
    then show ?thesis
      by (simp add: db_def s_b_def IsNegative_def Scalar_Set_def Scalar_Mul_def d_1)
  qed
  have split: "split_db db = Inr (db mod 2 ^ 128, db div 2 ^ 128)"
    using db0 by (rule split_db_value)
  have e0: "0 \<le> db mod 2 ^ 128" "db mod 2 ^ 128 < 2 ^ 255"
  proof -
    show "0 \<le> db mod 2 ^ 128" by simp
    have "db mod 2 ^ 128 < 2 ^ 128" by simp
    then show "db mod 2 ^ 128 < 2 ^ 255" by simp
  qed
  have e1: "0 \<le> db div 2 ^ 128" "db div 2 ^ 128 < 2 ^ 255"
  proof -
    have "db < 2 ^ 253" using db0(2) ell_bounds(2) by (rule less_trans)
    with db0(1) show "0 \<le> db div 2 ^ 128" by (rule high_half_bounds)
    from db0(1) \<open>db < 2 ^ 253\<close> have "db div 2 ^ 128 < 2 ^ 125" by (rule high_half_bounds)
    then show "db div 2 ^ 128 < 2 ^ 255" by simp
  qed
  have a0: "0 \<le> \<bar>d0\<bar>" "\<bar>d0\<bar> < 2 ^ 255" using props(2) by simp_all
  have a1: "0 \<le> \<bar>d1\<bar>" "\<bar>d1\<bar> < 2 ^ 255" using props(3) by simp_all
  have recombine: "db mod 2 ^ 128 + 2 ^ 128 * (db div 2 ^ 128) = db" by simp
  have st: "straus_generic B p_A negC (abs d0) (db mod 2 ^ 128) (db div 2 ^ 128) (abs d1)
        = Inr (smul (abs d0) p_A + smul db B + smul (abs d1) negC)"
    using straus_generic_value [OF a0 e0 e1 a1, of B p_A negC] by (simp only: recombine)
  have tA: "smul (abs d0) p_A = smul d0 A"
    by (simp add: p_A_def IsNegative_def EdwardsPoint_Neg_def EdwardsPoint_Set_def abs_if smul_minus smul_neg_right)
  have tC: "smul (abs d1) negC = - smul d1 C"
    by (simp add: negC_def IsNegative_def EdwardsPoint_Neg_def EdwardsPoint_Set_def abs_if smul_minus smul_neg_right)
  have "edwardsMulAbglsvPorninVartimeGeneric B a A b C
        = then_do (split_db db) (\<lambda>(e_0, e_1). straus_generic B p_A negC (abs d0) e_0 e_1 (abs d1))"
    by (simp only: edwardsMulAbglsvPorninVartimeGeneric_def fsv prod.case Let_def
        p_A_def s_b_def negC_def db_def d_0 d_1)
  also have "\<dots> = Inr (smul (abs d0) p_A + smul db B + smul (abs d1) negC)"
    by (simp only: split then_do_def sum.case prod.case st)
  finally show ?thesis by (simp only: tA tC dbv) simp
qed

lemma vector_body_eq: "vector_body c i q = generic_body c i q"
proof -
  have a: "(AddExtendedCached :: 'a \<Rightarrow> 'a \<Rightarrow> 'a) = AddCompletedProjectiveNiels"
    "(AddExtendedCached :: 'a \<Rightarrow> 'a \<Rightarrow> 'a) = AddCompletedAffineNiels"
    "(SubExtendedCached :: 'a \<Rightarrow> 'a \<Rightarrow> 'a) = SubCompletedProjectiveNiels"
    "(SubExtendedCached :: 'a \<Rightarrow> 'a \<Rightarrow> 'a) = SubCompletedAffineNiels"
    by (intro ext, simp add: AddExtendedCached_def AddCompletedProjectiveNiels_def
        AddCompletedAffineNiels_def SubExtendedCached_def SubCompletedProjectiveNiels_def
        SubCompletedAffineNiels_def)+
  have t: "then_do m (\<lambda>t. Inr (SetCompleted t)) = m" for m :: "panic + 'a"
    by (cases m) (simp_all add: then_do_def SetCompleted_def)
  show ?thesis
    unfolding vector_body_def generic_body_def t
    by (simp only: a(1) a(3)) (simp only: a(2) [symmetric] a(4) [symmetric] a(1) a(3))
qed

lemma vector_loop_eq: "vector_loop c i q = generic_loop c i q"
proof (induction i arbitrary: q)
  case 0
  show ?case
    by (subst vector_loop.simps, subst generic_loop.simps) (simp add: vector_body_eq split: sum.split)
next
  case (Suc i)
  show ?case
    by (subst vector_loop.simps, subst generic_loop.simps)
       (simp add: vector_body_eq Suc.IH split: sum.split)
qed

lemma run_vector_eq: "run_vector c = run_generic c"
  by (simp add: run_vector_def run_generic_def vector_loop_eq setExtended_def setProjective_def)

lemma straus_vector_eq:
  "straus_vector B p_A negC d_0 e_0 e_1 d_1 = straus_generic B p_A negC d_0 e_0 e_1 d_1"
  by (simp add: straus_vector_def straus_generic_def run_vector_eq
      newCachedPointNafLookupTable_def newProjectiveNielsPointNafLookupTable_def
      constVECTOR_ODD_MULTIPLES_OF_BASEPOINT_def constAFFINE_ODD_MULTIPLES_OF_BASEPOINT_def
      constVECTOR_ODD_MULTIPLES_OF_B_SHL_128_def constAFFINE_ODD_MULTIPLES_OF_B_SHL_128_def)

lemma vector_eq_generic:
  "edwardsMulAbglsvPorninVartimeVector B a A b C = edwardsMulAbglsvPorninVartimeGeneric B a A b C"
  by (simp add: edwardsMulAbglsvPorninVartimeVector_def edwardsMulAbglsvPorninVartimeGeneric_def
      straus_vector_eq)

lemma dispatch_value:
  assumes "FindShortVector a = (d0, d1)"
  shows "edwardsMulAbglsvPorninVartime sv B a A b C =
           Inr (smul d0 A + smul ((b * d1) mod ell) B - smul d1 C)"
  by (cases sv) (simp_all add: edwardsMulAbglsvPorninVartime_def vector_eq_generic generic_value [OF assms])

lemma scaled_target:
  fixes A B C :: "'g::ab_group_add"
  assumes fsv: "FindShortVector a = (d0, d1)" and tA: "smul ell A = 0" and tB: "smul ell B = 0"
  shows "smul d0 A + smul ((b * d1) mod ell) B - smul d1 C = smul d1 (smul a A + smul b B - C)"
proof -
  have "ell dvd (d0 - a * d1)" using FindShortVector_props(1) [OF fsv] .
  then have 1: "smul d0 A = smul (d1 * a) A" using smul_cong_mod [OF tA] by (simp add: mult.commute)
  have "ell dvd ((b * d1) mod ell - b * d1)" by (simp add: mod_eq_dvd_iff [symmetric])
  then have 2: "smul ((b * d1) mod ell) B = smul (d1 * b) B"
    using smul_cong_mod [OF tB] by (simp add: mult.commute)
  show ?thesis unfolding 1 2 by (simp add: smul_diff_right smul_add_right smul_mult)
qed

lemma ell_pt: "smul ell (8 :: pt) = 0"
  by (simp add: smul_ring ell_def)

subsection \<open>The X25519 functions\<close>

lemma clampScalar_ok: "length s = 32 \<Longrightarrow> \<exists>c. clampScalar s = Inr c \<and> length c = 32"
  by (simp add: clampScalar_def Let_def)

lemma copy_go_same_length: "length src = length dst \<Longrightarrow> copy_go dst src = src"
  by (simp add: copy_go_def)

lemma ScalarMult_bytes_ok:
  "length bs = 32 \<Longrightarrow> \<exists>d. ScalarMult_bytes montMul dst inp bs = Inr d \<and> length d = length dst"
proof -
  assume b: "length bs = 32"
  obtain c where c: "clampScalar (copy_go (replicate 32 0) inp) = Inr c" "length c = 32"
    using clampScalar_ok [of "copy_go (replicate 32 0) inp"] by auto
  show ?thesis
    by (simp add: ScalarMult_bytes_def Let_def c SetBits_def MontgomeryPoint_SetBytes_def b)
qed

lemma ScalarBaseMult_bytes_ok:
  "\<exists>d. ScalarBaseMult_bytes baseMul dst inp = Inr d \<and> length d = length dst"
proof -
  obtain c where c: "clampScalar (copy_go (replicate 32 0) inp) = Inr c" "length c = 32"
    using clampScalar_ok [of "copy_go (replicate 32 0) inp"] by auto
  show ?thesis
    by (simp add: ScalarBaseMult_bytes_def Let_def c SetBits_def)
qed







lemma X25519_bad_scalar:
  "length (elems scalar) \<noteq> 32 \<Longrightarrow>
   X25519 montMul baseMul Bp scalar point
     = Inr (None, Some (BadScalarLength (length (elems scalar))))"
  by (simp add: X25519_def x25519_def Let_def)

lemma X25519_bad_point:
  "length (elems scalar) = 32 \<Longrightarrow> length (elems point) \<noteq> 32 \<Longrightarrow>
   X25519 montMul baseMul Bp scalar point
     = Inr (None, Some (BadPointLength (length (elems point))))"
  by (simp add: X25519_def x25519_def Let_def)

lemma X25519_basepoint:
  assumes "length (elems scalar) = 32" "length (elems point) = 32"
    and "elems Bp = basePoint" "base point = base Bp"
  shows "\<exists>r. X25519 montMul baseMul Bp scalar point = Inr (Some r, None) \<and> length r = 32"
proof -
  obtain d where d: "ScalarBaseMult_bytes baseMul (replicate 32 0) (elems scalar) = Inr d"
    "length d = 32"
    using ScalarBaseMult_bytes_ok [of baseMul "replicate 32 0" "elems scalar"] by auto
  show ?thesis
    using assms d
    by (simp add: X25519_def x25519_def Let_def checkBasepoint_def ConstantTimeCompare_def
        basePoint_def ScalarBaseMult_def copy_go_same_length)
qed

lemma X25519_other_point:
  assumes "length (elems scalar) = 32" "length (elems point) = 32"
    and "elems Bp \<noteq> []" "base point \<noteq> base Bp"
  shows "\<exists>d. ScalarMult_bytes montMul (replicate 32 0) (elems scalar) (elems point) = Inr d \<and>
           length d = 32 \<and>
           X25519 montMul baseMul Bp scalar point
             = (if d = replicate 32 0 then Inr (None, Some LowOrderPoint) else Inr (Some d, None))"
proof -
  obtain d where d: "ScalarMult_bytes montMul (replicate 32 0) (elems scalar) (elems point) = Inr d"
    "length d = 32"
    using ScalarMult_bytes_ok [OF assms(2), of montMul "replicate 32 0" "elems scalar"] by auto
  show ?thesis
    using assms d
    by (simp add: X25519_def x25519_def Let_def ConstantTimeCompare_def ScalarMult_def
        copy_go_same_length)
qed

lemma X25519_modified_basepoint:
  assumes "length (elems scalar) = 32" "length (elems point) = 32"
    and "elems Bp \<noteq> []" "elems Bp \<noteq> basePoint" "base point = base Bp"
  shows "X25519 montMul baseMul Bp scalar point = Inl BasepointModified"
  using assms
  by (simp add: X25519_def x25519_def Let_def checkBasepoint_def ConstantTimeCompare_def
      basePoint_def)

section \<open>Claims about the evaluator\<close>

text \<open>
  Claim C1, as amended. With \<open>(d\<^sub>0, d\<^sub>1)\<close> the short vector of \<open>a\<close>, and for a point \<open>A\<close> whose
  order divides \<open>ell\<close> (the basepoint \<open>B\<close> has order \<open>ell\<close>), the point that
  \<^verbatim>\<open>edwardsMulAbglsvPorninVartime(out, a, A, b, C)\<close> writes to \<open>out\<close> is
  \<open>[d\<^sub>1]([a]A + [b]B - C)\<close>, the target scaled by the nonzero \<open>d\<^sub>1\<close>, in either realization;
  it is not the target \<open>[a]A + [b]B - C\<close> itself.
\<close>

theorem dispatcher_scaled_target:
  fixes A B C :: "'g::ab_group_add"
  assumes "FindShortVector a = (d0, d1)" and "smul ell A = 0" and "smul ell B = 0"
  shows "edwardsMulAbglsvPorninVartime sv B a A b C
           = Inr (smul d1 (smul a A + smul b B - C)) \<and> d1 \<noteq> 0"
proof
  show "edwardsMulAbglsvPorninVartime sv B a A b C = Inr (smul d1 (smul a A + smul b B - C))"
    unfolding dispatch_value [OF assms(1)] scaled_target [OF assms] by (rule refl)
  show "d1 \<noteq> 0" using assms(1) by (rule FindShortVector_props(4))
qed

theorem dispatcher_scaled_target_witness:
  "FindShortVector ((ell + 1) div 2) = (- 1, - 2) \<and> smul ell (16::pt) = 0 \<and> smul ell (8::pt) = 0 \<and>
   edwardsMulAbglsvPorninVartime True (8::pt) ((ell + 1) div 2) 16 5 3
     = Inr (smul (- 2) (smul ((ell + 1) div 2) 16 + smul 5 8 - 3))"
proof -
  have t: "smul ell (16::pt) = 0" by (simp add: smul_ring ell_def)
  from dispatcher_scaled_target [OF FindShortVector_half t ell_pt]
  show ?thesis using FindShortVector_half t ell_pt by simp
qed

text \<open>
  The claim as stated fails where the short vector has \<open>d\<^sub>1 \<noteq> 1\<close>: for
  \<open>a = (ell + 1) / 2\<close> the reducer returns \<open>(-1, -2)\<close>, and with \<open>A = B\<close>, \<open>b = 1\<close> and \<open>C\<close> the
  identity the result is \<open>-[2]([a]B + B)\<close>, which differs from \<open>[a]B + B\<close>.
\<close>

theorem dispatcher_not_target_counterexample:
  "edwardsMulAbglsvPorninVartime True (8::pt) ((ell + 1) div 2) 8 1 0
     \<noteq> Inr (smul ((ell + 1) div 2) 8 + smul 1 8 - 0)"
proof -
  have "edwardsMulAbglsvPorninVartime True (8::pt) ((ell + 1) div 2) 8 1 0
          = Inr (smul (- 1) 8 + smul ((1 * - 2) mod ell) 8 - smul (- 2) 0)"
    by (rule dispatch_value [OF FindShortVector_half])
  then show ?thesis by (simp add: smul_ring ell_def)
qed

text \<open>
  Claim C2, as amended. With \<open>(d\<^sub>0, d\<^sub>1)\<close> the pair the lattice reducer returns for \<open>a\<close>, the
  point written by \<^verbatim>\<open>edwardsMulAbglsvPorninVartimeGeneric\<close> is
  \<open>[d\<^sub>0]A + [(b d\<^sub>1) mod ell]B - [d\<^sub>1]C\<close>, for all scalars and all points; this is the target
  \<open>[a]A + [b]B - C\<close> scaled by \<open>d\<^sub>1\<close> whenever the order of \<open>A\<close> divides \<open>ell\<close> (the basepoint
  \<open>B\<close> has order \<open>ell\<close>).
\<close>

theorem generic_lattice_rewrite:
  fixes A B C :: "'g::ab_group_add"
  assumes "FindShortVector a = (d0, d1)"
  shows "edwardsMulAbglsvPorninVartimeGeneric B a A b C
           = Inr (smul d0 A + smul ((b * d1) mod ell) B - smul d1 C) \<and>
         (smul ell A = 0 \<and> smul ell B = 0 \<longrightarrow>
            edwardsMulAbglsvPorninVartimeGeneric B a A b C
              = Inr (smul d1 (smul a A + smul b B - C)))"
proof (intro conjI impI)
  show v: "edwardsMulAbglsvPorninVartimeGeneric B a A b C
             = Inr (smul d0 A + smul ((b * d1) mod ell) B - smul d1 C)"
    using assms by (rule generic_value)
  assume "smul ell A = 0 \<and> smul ell B = 0"
  then have "smul d0 A + smul ((b * d1) mod ell) B - smul d1 C
               = smul d1 (smul a A + smul b B - C)"
    using assms by (intro scaled_target) simp_all
  with v show "edwardsMulAbglsvPorninVartimeGeneric B a A b C
                 = Inr (smul d1 (smul a A + smul b B - C))"
    by simp
qed

theorem generic_lattice_rewrite_witness:
  "edwardsMulAbglsvPorninVartimeGeneric (8::pt) ((ell + 1) div 2) 16 5 3
     = Inr (smul (- 1) 16 + smul ((5 * - 2) mod ell) 8 - smul (- 2) 3) \<and>
   edwardsMulAbglsvPorninVartimeGeneric (8::pt) ((ell + 1) div 2) 16 5 3
     = Inr (smul (- 2) (smul ((ell + 1) div 2) 16 + smul 5 8 - 3))"
proof -
  have t: "smul ell (16::pt) = 0" by (simp add: smul_ring ell_def)
  from generic_lattice_rewrite [OF FindShortVector_half, of "8::pt" 16 5 3] t ell_pt
  show ?thesis by blast
qed

text \<open>
  The scaled-target reading fails for a point with a torsion component: \<open>4 * ell\<close> is the
  point of order 2 of the group of order \<open>8 * ell\<close>. For \<open>a = (ell + 1) / 2\<close> the reducer
  returns \<open>(-1, -2)\<close>, the code computes \<open>[-1]A = A\<close>, and \<open>[-2][a]A\<close> is the identity.
\<close>

theorem generic_scaled_torsion_counterexample:
  "FindShortVector ((ell + 1) div 2) = (- 1, - 2) \<and>
   edwardsMulAbglsvPorninVartimeGeneric (8::pt) ((ell + 1) div 2) (of_int (4 * ell)) 0 0
     \<noteq> Inr (smul (- 2) (smul ((ell + 1) div 2) (of_int (4 * ell)) + smul 0 8 - 0))"
proof -
  have "edwardsMulAbglsvPorninVartimeGeneric (8::pt) ((ell + 1) div 2) (of_int (4 * ell)) 0 0
          = Inr (smul (- 1) (of_int (4 * ell)) + smul ((0 * - 2) mod ell) 8 - smul (- 2) 0)"
    by (rule generic_value [OF FindShortVector_half])
  then show ?thesis using FindShortVector_half by (simp add: smul_ring ell_def)
qed

text \<open>
  Claim C3. For all scalars and points the generic realization (projective and completed
  accumulator) and the vectorized realization (extended accumulator) write the same group
  element, or fail alike.
\<close>

theorem realizations_agree:
  "edwardsMulAbglsvPorninVartimeVector B a A b C = edwardsMulAbglsvPorninVartimeGeneric B a A b C"
  by (rule vector_eq_generic)

text \<open>
  Claim C4. For every scalar \<open>a\<close> the pair \<open>(d\<^sub>0, d\<^sub>1)\<close> returned by the lattice reducer
  satisfies \<open>(d\<^sub>0 - a d\<^sub>1) mod ell = 0\<close>, \<open>d\<^sub>1 \<noteq> 0\<close> and \<open>max |d\<^sub>0| |d\<^sub>1| < 2 ^ 129\<close>.
\<close>

theorem FindShortVector_short:
  "(case FindShortVector a of (d0, d1) \<Rightarrow>
      (d0 - a * d1) mod ell = 0 \<and> d1 \<noteq> 0 \<and> max \<bar>d0\<bar> \<bar>d1\<bar> < 2 ^ 129)"
proof (cases "FindShortVector a")
  case (Pair d0 d1)
  note p = FindShortVector_props [OF Pair]
  have w: "(2::int) ^ 127 < 2 ^ 129" by simp
  from p(2) w have b0: "\<bar>d0\<bar> < 2 ^ 129" by (rule less_trans)
  from p(3) w have b1: "\<bar>d1\<bar> < 2 ^ 129" by (rule less_trans)
  from p(1) have "(d0 - a * d1) mod ell = 0" by (simp add: mod_eq_0_iff_dvd)
  with p(4) b0 b1 show ?thesis unfolding Pair prod.case by (simp only: max_less_iff_conj) simp
qed

text \<open>
  Claim C5. With \<open>db\<close> the reduced product of the sign-merged \<open>b\<close> and \<open>|d\<^sub>1|\<close>, the scalars
  built through \<^verbatim>\<open>ToBytes\<close> and \<^verbatim>\<open>SetBits\<close> are \<open>e\<^sub>0\<close>, the low 128 bits of \<open>db\<close>, and \<open>e\<^sub>1\<close>,
  bits 128 to 256 of \<open>db\<close>, whose top 3 bits are zero; and \<open>db = e\<^sub>0 + 2 ^ 128 * e\<^sub>1\<close>.
\<close>

theorem db_halves:
  "(let db = Scalar_Mul s_b d_1; e_0 = db mod 2 ^ 128; e_1 = (db div 2 ^ 128) mod 2 ^ 128
    in split_db db = Inr (e_0, e_1) \<and> 0 \<le> e_1 \<and> e_1 < 2 ^ 125 \<and> db = e_0 + 2 ^ 128 * e_1)"
proof -
  define db where "db = Scalar_Mul s_b d_1"
  have db0: "0 \<le> db" "db < ell" using ell_pos by (simp_all add: db_def Scalar_Mul_def)
  have "db < 2 ^ 253" using db0(2) ell_bounds(2) by (rule less_trans)
  with db0(1) have h1: "0 \<le> db div 2 ^ 128" by (rule high_half_bounds)
  from db0(1) \<open>db < 2 ^ 253\<close> have h2: "db div 2 ^ 128 < 2 ^ 125" by (rule high_half_bounds)
  note h = h1 h2
  have "(2::int) ^ 125 < 2 ^ 128" by simp
  with h(2) have "db div 2 ^ 128 < 2 ^ 128" by (rule less_trans)
  with h(1) have m: "(db div 2 ^ 128) mod 2 ^ 128 = db div 2 ^ 128" by simp
  have "split_db db = Inr (db mod 2 ^ 128, db div 2 ^ 128)" using db0 by (rule split_db_value)
  moreover have "db = db mod 2 ^ 128 + 2 ^ 128 * (db div 2 ^ 128)" by simp
  ultimately show ?thesis
    unfolding Let_def db_def [symmetric] m using h by blast
qed

text \<open>
  Claim C6, as amended. For \<open>a = 0\<close> the lattice reducer returns the trivial short vector
  \<open>(0, 1)\<close> and the result is \<open>[b]B - C\<close> (for a canonical \<open>b\<close>); for \<open>a = b = 0\<close> it is
  \<open>-C\<close>. For \<open>b = 0\<close> the result is \<open>[d\<^sub>0]A - [d\<^sub>1]C\<close> with \<open>(d\<^sub>0, d\<^sub>1)\<close> the short vector of \<open>a\<close>,
  which is \<open>[d\<^sub>1]([a]A - C)\<close> when the order of \<open>A\<close> divides \<open>ell\<close>; it is not \<open>[a]A - C\<close> in
  general.
\<close>

theorem zero_scalars:
  fixes A B C :: "'g::ab_group_add"
  shows "FindShortVector 0 = (0, 1) \<and>
    (0 \<le> b \<and> b < ell \<longrightarrow> edwardsMulAbglsvPorninVartimeGeneric B 0 A b C = Inr (smul b B - C)) \<and>
    edwardsMulAbglsvPorninVartimeGeneric B 0 A 0 C = Inr (- C) \<and>
    (FindShortVector a = (d0, d1) \<longrightarrow>
       edwardsMulAbglsvPorninVartimeGeneric B a A 0 C = Inr (smul d0 A - smul d1 C) \<and>
       (smul ell A = 0 \<longrightarrow>
          edwardsMulAbglsvPorninVartimeGeneric B a A 0 C = Inr (smul d1 (smul a A - C))))"
proof (intro conjI impI)
  show "FindShortVector 0 = (0, 1)" by (rule FindShortVector_zero)
next
  assume "0 \<le> b \<and> b < ell"
  then have "b mod ell = b" by simp
  then show "edwardsMulAbglsvPorninVartimeGeneric B 0 A b C = Inr (smul b B - C)"
    unfolding generic_value [OF FindShortVector_zero] by simp
next
  show "edwardsMulAbglsvPorninVartimeGeneric B 0 A 0 C = Inr (- C)"
    unfolding generic_value [OF FindShortVector_zero] by simp
next
  assume f: "FindShortVector a = (d0, d1)"
  show v: "edwardsMulAbglsvPorninVartimeGeneric B a A 0 C = Inr (smul d0 A - smul d1 C)"
    unfolding generic_value [OF f] by simp
  assume t: "smul ell A = 0"
  have "ell dvd (d0 - d1 * a)" using FindShortVector_props(1) [OF f] by (simp add: mult.commute)
  with t have "smul d0 A = smul (d1 * a) A" by (rule smul_cong_mod)
  then show "edwardsMulAbglsvPorninVartimeGeneric B a A 0 C = Inr (smul d1 (smul a A - C))"
    unfolding v by (simp add: smul_diff_right smul_mult)
qed

theorem zero_scalars_witness:
  "edwardsMulAbglsvPorninVartimeGeneric (8::pt) 0 16 5 3 = Inr (smul 5 8 - 3) \<and>
   edwardsMulAbglsvPorninVartimeGeneric (8::pt) ((ell + 1) div 2) 16 0 3
     = Inr (smul (- 1) 16 - smul (- 2) 3) \<and>
   edwardsMulAbglsvPorninVartimeGeneric (8::pt) ((ell + 1) div 2) 16 0 3
     = Inr (smul (- 2) (smul ((ell + 1) div 2) 16 - 3))"
proof -
  have t: "smul ell (16::pt) = 0" by (simp add: smul_ring ell_def)
  have b: "(0::int) \<le> 5 \<and> 5 < ell" by (simp add: ell_def)
  from zero_scalars [of 5 "8::pt" 16 3 "(ell + 1) div 2" "- 1" "- 2"] t b FindShortVector_half
  show ?thesis by blast
qed

text \<open>
  For \<open>b = 0\<close> the claim as stated fails: at \<open>a = (ell + 1) / 2\<close>, with \<open>A\<close> the identity and
  \<open>C = B\<close>, the reducer returns \<open>(-1, -2)\<close> and the result is \<open>[2]B\<close>, not \<open>[a]A - C = -B\<close>.
\<close>

theorem zero_b_counterexample:
  "edwardsMulAbglsvPorninVartimeGeneric (8::pt) ((ell + 1) div 2) 0 0 8
     \<noteq> Inr (smul ((ell + 1) div 2) 0 - 8)"
proof -
  have "edwardsMulAbglsvPorninVartimeGeneric (8::pt) ((ell + 1) div 2) 0 0 8
          = Inr (smul (- 1) 0 + smul ((0 * - 2) mod ell) 8 - smul (- 2) 8)"
    by (rule generic_value [OF FindShortVector_half])
  then show ?thesis by (simp add: smul_ring)
qed

text \<open>
  Claim C7. The starting-index scan sets \<open>i\<close> to the largest index in 0..255 at which one of
  the four digit arrays is nonzero; and if the four arrays are entirely zero, the scan ends
  at 0, the loop leaves the accumulator at the identity and the identity is written to
  \<open>out\<close>.
\<close>

theorem starting_index:
  fixes c :: "'g::ab_group_add straus"
  shows "((\<exists>j<256. nonzero_at n0 n1 n2 n3 j) \<longrightarrow>
            find_start n0 n1 n2 n3 255 < 256 \<and>
            nonzero_at n0 n1 n2 n3 (find_start n0 n1 n2 n3 255) \<and>
            (\<forall>j<256. nonzero_at n0 n1 n2 n3 j \<longrightarrow> j \<le> find_start n0 n1 n2 n3 255)) \<and>
         (d_0_naf c = replicate 256 0 \<and> e_0_naf c = replicate 256 0 \<and>
          e_1_naf c = replicate 256 0 \<and> d_1_naf c = replicate 256 0 \<longrightarrow>
            find_start (d_0_naf c) (e_0_naf c) (e_1_naf c) (d_1_naf c) 255 = 0 \<and>
            generic_loop c 0 Identity = Inr Identity \<and>
            run_generic c = Inr Identity)"
proof (intro conjI impI)
  define i where "i = find_start n0 n1 n2 n3 255"
  have le: "i \<le> 255" unfolding i_def by (rule find_start_le)
  then show "find_start n0 n1 n2 n3 255 < 256" unfolding i_def by simp
  have above: "j \<le> i" if "j < 256" "nonzero_at n0 n1 n2 n3 j" for j
  proof (rule ccontr)
    assume "\<not> j \<le> i"
    then have "find_start n0 n1 n2 n3 255 < j" "j \<le> 255" using that(1) by (simp_all add: i_def)
    then have "\<not> nonzero_at n0 n1 n2 n3 j" by (rule find_start_above)
    with that(2) show False by simp
  qed
  then show "\<forall>j<256. nonzero_at n0 n1 n2 n3 j \<longrightarrow> j \<le> find_start n0 n1 n2 n3 255"
    unfolding i_def by blast
  assume "\<exists>j<256. nonzero_at n0 n1 n2 n3 j"
  then obtain j where j: "j < 256" "nonzero_at n0 n1 n2 n3 j" by blast
  show "nonzero_at n0 n1 n2 n3 (find_start n0 n1 n2 n3 255)"
  proof (rule ccontr)
    assume n: "\<not> nonzero_at n0 n1 n2 n3 (find_start n0 n1 n2 n3 255)"
    with find_start_hit [of n0 n1 n2 n3 255] have "i = 0" by (simp add: i_def)
    with above [OF j] have "j = 0" by simp
    with j(2) n \<open>i = 0\<close> show False by (simp add: i_def)
  qed
next
  assume z: "d_0_naf c = replicate 256 0 \<and> e_0_naf c = replicate 256 0 \<and>
             e_1_naf c = replicate 256 0 \<and> d_1_naf c = replicate 256 0"
  have nz: "\<not> nonzero_at (d_0_naf c) (e_0_naf c) (e_1_naf c) (d_1_naf c) j" if "j < 256" for j
    using that z by (simp add: nonzero_at_def)
  define i where "i = find_start (d_0_naf c) (e_0_naf c) (e_1_naf c) (d_1_naf c) 255"
  have "i \<le> 255" unfolding i_def by (rule find_start_le)
  then have "i < 256" by simp
  with nz find_start_hit [of "d_0_naf c" "e_0_naf c" "e_1_naf c" "d_1_naf c" 255]
  show i0: "find_start (d_0_naf c) (e_0_naf c) (e_1_naf c) (d_1_naf c) 255 = 0"
    unfolding i_def [symmetric] by blast
  have body: "generic_body c 0 Identity = Inr Identity"
    using z by (simp add: generic_body_def then_do_def naf_term_def Double_def Identity_def
        SetCompleted_def)
  show l: "generic_loop c 0 Identity = Inr Identity"
    by (subst generic_loop.simps) (simp add: body)
  show "run_generic c = Inr Identity"
    by (simp add: run_generic_def i0 l then_do_def setProjective_def)
qed

theorem starting_index_witness:
  "nonzero_at ((replicate 256 0)[3 := 1]) (replicate 256 0) (replicate 256 0) (replicate 256 0)
     (find_start ((replicate 256 0)[3 := 1]) (replicate 256 0) (replicate 256 0) (replicate 256 0) 255) \<and>
   3 \<le> find_start ((replicate 256 0)[3 := 1]) (replicate 256 0) (replicate 256 0) (replicate 256 0) 255 \<and>
   run_generic (straus.make (replicate 256 0) (replicate 256 0) (replicate 256 0) (replicate 256 0)
      (newProjectiveNielsPointNafLookupTable (16::pt)) (constAFFINE_ODD_MULTIPLES_OF_BASEPOINT 8)
      (constAFFINE_ODD_MULTIPLES_OF_B_SHL_128 8) (newProjectiveNielsPointNafLookupTable 3))
     = Inr Identity"
proof -
  define N :: "int list" where "N = (replicate 256 0)[3 := 1]"
  define Z :: "int list" where "Z = replicate 256 0"
  define c :: "pt straus" where "c = straus.make Z Z Z Z
      (newProjectiveNielsPointNafLookupTable (16::pt)) (constAFFINE_ODD_MULTIPLES_OF_BASEPOINT 8)
      (constAFFINE_ODD_MULTIPLES_OF_B_SHL_128 8) (newProjectiveNielsPointNafLookupTable 3)"
  have n3: "(3::nat) < 256 \<and> nonzero_at N Z Z Z 3" by (simp add: nonzero_at_def N_def)
  then have ex: "\<exists>j<256. nonzero_at N Z Z Z j" by blast
  have zc: "d_0_naf c = replicate 256 0 \<and> e_0_naf c = replicate 256 0 \<and>
            e_1_naf c = replicate 256 0 \<and> d_1_naf c = replicate 256 0"
    by (simp add: c_def straus.defs Z_def)
  from starting_index [of N Z Z Z c] ex zc n3
  have "nonzero_at N Z Z Z (find_start N Z Z Z 255) \<and> 3 \<le> find_start N Z Z Z 255 \<and>
        run_generic c = Inr Identity"
    by blast
  then show ?thesis unfolding N_def Z_def c_def .
qed

text \<open>
  Claim C8. \<^verbatim>\<open>edwardsMulAbglsvPorninVartimeGeneric\<close> returns a point on every input: the
  panics that guard \<^verbatim>\<open>db.ToBytes\<close>, \<^verbatim>\<open>e_0.SetBits\<close> and \<^verbatim>\<open>e_1.SetBits\<close> are never reached,
  since \<open>db\<close> is a reduced product and the buffers are 32 bytes long (and no table lookup
  leaves its table).
\<close>

theorem generic_total:
  "(\<exists>P. edwardsMulAbglsvPorninVartimeGeneric B a A b C = Inr P) \<and>
   (\<exists>e_0 e_1. split_db (Scalar_Mul s_b d_1) = Inr (e_0, e_1))"
proof
  obtain d0 d1 where "FindShortVector a = (d0, d1)" by (cases "FindShortVector a")
  from generic_value [OF this]
  show "\<exists>P. edwardsMulAbglsvPorninVartimeGeneric B a A b C = Inr P" by blast
  have "0 \<le> Scalar_Mul s_b d_1" "Scalar_Mul s_b d_1 < ell"
    using ell_pos by (simp_all add: Scalar_Mul_def)
  from split_db_value [OF this]
  show "\<exists>e_0 e_1. split_db (Scalar_Mul s_b d_1) = Inr (e_0, e_1)" by blast
qed

section \<open>Claims about X25519\<close>

text \<open>
  Claim C9, as amended. Provided the package variable \<^verbatim>\<open>Basepoint\<close> still holds the bytes
  of the generator, \<^verbatim>\<open>X25519(scalar, point)\<close> returns, with a non-nil error if and only if
  \<open>len(scalar) \<noteq> 32\<close>, or \<open>len(point) \<noteq> 32\<close>, or \<open>point\<close> is not the \<^verbatim>\<open>Basepoint\<close> slice and
  the computed Montgomery output is all 32 zero bytes; in every error case the returned
  slice is nil, and otherwise a 32-byte result with a nil error is returned. If the contents
  of \<^verbatim>\<open>Basepoint\<close> were modified, a call with 32-byte arguments and \<open>point\<close> the
  \<^verbatim>\<open>Basepoint\<close> slice panics instead of returning.
\<close>

theorem X25519_errors:
  "(elems Bp = basePoint \<longrightarrow>
      (\<exists>res err. X25519 montMul baseMul Bp scalar point = Inr (res, err) \<and>
         ((err \<noteq> None) =
            (length (elems scalar) \<noteq> 32 \<or> length (elems point) \<noteq> 32 \<or>
             (base point \<noteq> base Bp \<and>
              ScalarMult_bytes montMul (replicate 32 0) (elems scalar) (elems point)
                = Inr (replicate 32 0)))) \<and>
         (err \<noteq> None \<longrightarrow> res = None) \<and>
         (err = None \<longrightarrow> (\<exists>r. res = Some r \<and> length r = 32)))) \<and>
   (elems Bp \<noteq> basePoint \<and> elems Bp \<noteq> [] \<and> length (elems scalar) = 32 \<and>
    length (elems point) = 32 \<and> base point = base Bp \<longrightarrow>
      X25519 montMul baseMul Bp scalar point = Inl BasepointModified)"
proof (intro conjI impI)
  assume intact: "elems Bp = basePoint"
  then have ne: "elems Bp \<noteq> []" by (simp add: basePoint_def)
  show "\<exists>res err. X25519 montMul baseMul Bp scalar point = Inr (res, err) \<and>
         ((err \<noteq> None) =
            (length (elems scalar) \<noteq> 32 \<or> length (elems point) \<noteq> 32 \<or>
             (base point \<noteq> base Bp \<and>
              ScalarMult_bytes montMul (replicate 32 0) (elems scalar) (elems point)
                = Inr (replicate 32 0)))) \<and>
         (err \<noteq> None \<longrightarrow> res = None) \<and>
         (err = None \<longrightarrow> (\<exists>r. res = Some r \<and> length r = 32))"
  proof (cases "length (elems scalar) = 32")
    case False
    then show ?thesis by (simp add: X25519_bad_scalar)
  next
    case s: True
    show ?thesis
    proof (cases "length (elems point) = 32")
      case False
      with s show ?thesis by (simp add: X25519_bad_point)
    next
      case p: True
      show ?thesis
      proof (cases "base point = base Bp")
        case True
        from X25519_basepoint [OF s p intact True, of montMul baseMul]
        obtain r where "X25519 montMul baseMul Bp scalar point = Inr (Some r, None)"
          "length r = 32" by blast
        with s p True show ?thesis by simp
      next
        case False
        from X25519_other_point [OF s p ne False, of montMul baseMul]
        obtain d where d: "ScalarMult_bytes montMul (replicate 32 0) (elems scalar) (elems point) = Inr d"
          "length d = 32"
          "X25519 montMul baseMul Bp scalar point
             = (if d = replicate 32 0 then Inr (None, Some LowOrderPoint) else Inr (Some d, None))"
          by blast
        show ?thesis
        proof (cases "d = replicate 32 0")
          case True
          with d s p False show ?thesis by simp
        next
          case nz: False
          with d s p False show ?thesis by simp
        qed
      qed
    qed
  qed
next
  assume "elems Bp \<noteq> basePoint \<and> elems Bp \<noteq> [] \<and> length (elems scalar) = 32 \<and>
          length (elems point) = 32 \<and> base point = base Bp"
  then show "X25519 montMul baseMul Bp scalar point = Inl BasepointModified"
    by (intro X25519_modified_basepoint) simp_all
qed

theorem X25519_errors_witness:
  "\<forall>montMul baseMul. \<exists>r.
     X25519 montMul baseMul \<lparr>base = 0, elems = basePoint\<rparr> \<lparr>base = 100, elems = replicate 32 0\<rparr>
       \<lparr>base = 0, elems = basePoint\<rparr> = Inr (Some r, None) \<and> length r = 32"
proof (intro allI)
  fix montMul baseMul
  define Bp where "Bp = \<lparr>base = 0, elems = basePoint\<rparr>"
  define sc where "sc = \<lparr>base = 100, elems = replicate 32 (0::byte)\<rparr>"
  have h: "elems Bp = basePoint" "length (elems sc) = 32" "length (elems Bp) = 32"
    by (simp_all add: Bp_def sc_def basePoint_def)
  from X25519_errors [of Bp montMul baseMul sc Bp] h
  obtain res err where r: "X25519 montMul baseMul Bp sc Bp = Inr (res, err)"
    "err = None" "err = None \<longrightarrow> (\<exists>r. res = Some r \<and> length r = 32)"
    by auto
  then show "\<exists>r. X25519 montMul baseMul \<lparr>base = 0, elems = basePoint\<rparr>
       \<lparr>base = 100, elems = replicate 32 0\<rparr> \<lparr>base = 0, elems = basePoint\<rparr> = Inr (Some r, None) \<and>
       length r = 32"
    unfolding Bp_def sc_def by auto
qed

text \<open>
  The claim as stated fails once the contents of \<^verbatim>\<open>Basepoint\<close> were changed (its first byte
  is 8 here): with a 32-byte scalar and \<open>point\<close> the \<^verbatim>\<open>Basepoint\<close> slice, none of the error
  conditions holds, and \<^verbatim>\<open>checkBasepoint\<close> panics before any curve operation is reached
  (they are left unspecified).
\<close>

theorem X25519_modified_basepoint_counterexample:
  "X25519 undefined undefined \<lparr>base = 0, elems = 8 # replicate 31 0\<rparr>
     \<lparr>base = 100, elems = replicate 32 0\<rparr> \<lparr>base = 0, elems = 8 # replicate 31 0\<rparr>
   = Inl BasepointModified"
  by (simp add: X25519_def x25519_def checkBasepoint_def ConstantTimeCompare_def Let_def)




end
